theory Spec2Isabelle
  imports Main "HOL-Library.Word"
begin

section \<open>Python values used by unixFileSystem.py\<close>

text \<open>
  Bytes are 8-bit words, Python's unbounded integers are \<open>int\<close>, strings are character
  lists. The exceptions the file can raise are values of \<open>error\<close>; an operation answers
  \<open>Inl e\<close> where the Python raises \<open>e\<close>.
\<close>

type_synonym byte = "8 word"

datatype error = ValueError | IndexError | KeyError

definition BLOCK_SIZE :: nat where
  "BLOCK_SIZE = 4096"

text \<open>\<open>xs[i]\<close> on a Python list: a negative index counts from the end.\<close>

definition list_getitem :: "'a list \<Rightarrow> int \<Rightarrow> error + 'a" where
  "list_getitem xs i =
     (if 0 \<le> i \<and> i < int (length xs) then Inr (xs ! nat i)
      else if i < 0 \<and> - int (length xs) \<le> i then Inr (xs ! nat (int (length xs) + i))
      else Inl IndexError)"

text \<open>\<open>xs[i] = v\<close> on a Python list or bytearray.\<close>

definition list_setitem :: "'a list \<Rightarrow> int \<Rightarrow> 'a \<Rightarrow> error + 'a list" where
  "list_setitem xs i v =
     (if 0 \<le> i \<and> i < int (length xs) then Inr (xs[nat i := v])
      else if i < 0 \<and> - int (length xs) \<le> i then Inr (xs[nat (int (length xs) + i) := v])
      else Inl IndexError)"

text \<open>\<open>s.split(c)\<close>: the pieces between occurrences of \<open>c\<close>, empty pieces included.\<close>

fun str_split :: "char \<Rightarrow> string \<Rightarrow> string list" where
  "str_split c [] = [[]]"
| "str_split c (x # xs) =
     (if x = c then [] # str_split c xs
      else (case str_split c xs of
              [] \<Rightarrow> [[x]]
            | w # ws \<Rightarrow> (x # w) # ws))"

text \<open>
  \<open>s.rsplit(c, 1)\<close>: one piece when \<open>c\<close> does not occur in \<open>s\<close>, otherwise what stands
  before the last \<open>c\<close> and what stands after it.
\<close>

definition str_rsplit1 :: "char \<Rightarrow> string \<Rightarrow> string list" where
  "str_rsplit1 c s =
     (if c \<in> set s
      then [rev (tl (dropWhile (\<lambda>x. x \<noteq> c) (rev s))), rev (takeWhile (\<lambda>x. x \<noteq> c) (rev s))]
      else [s])"

text \<open>The tuple assignment \<open>a, b = xs\<close> raises ValueError unless \<open>xs\<close> has two elements.\<close>

definition unpack2 :: "'a list \<Rightarrow> error + ('a \<times> 'a)" where
  "unpack2 xs = (case xs of [a, b] \<Rightarrow> Inr (a, b) | _ \<Rightarrow> Inl ValueError)"

section \<open>Block store\<close>

record DataBlock =
  block_id :: nat
  data :: "byte list"

definition DataBlock_init :: "nat \<Rightarrow> DataBlock" where
  "DataBlock_init b = \<lparr>block_id = b, data = replicate BLOCK_SIZE 0\<rparr>"

text \<open>The lock of the block manager is left out: the model runs one call at a time.\<close>

record BlockManager =
  free_blocks :: "nat list"

definition BlockManager_init :: "int \<Rightarrow> BlockManager" where
  "BlockManager_init total_blocks = \<lparr>free_blocks = [0..<nat total_blocks]\<rparr>"

definition allocate :: "BlockManager \<Rightarrow> nat option \<times> BlockManager" where
  "allocate bm =
     (if free_blocks bm \<noteq> []
      then (Some (last (free_blocks bm)), bm\<lparr>free_blocks := butlast (free_blocks bm)\<rparr>)
      else (None, bm))"

definition free :: "BlockManager \<Rightarrow> nat \<Rightarrow> BlockManager" where
  "free bm b = bm\<lparr>free_blocks := free_blocks bm @ [b]\<rparr>"

text \<open>
  A client of the block manager alone: a trace of calls, run next to the set of ids the
  client holds (returned by \<open>allocate\<close> and not yet given back).
\<close>

datatype bm_call = Allocate | Free nat

fun bm_step :: "BlockManager \<times> nat set \<Rightarrow> bm_call \<Rightarrow> BlockManager \<times> nat set" where
  "bm_step (bm, held) Allocate =
     (case allocate bm of
        (None, bm') \<Rightarrow> (bm', held)
      | (Some b, bm') \<Rightarrow> (bm', insert b held))"
| "bm_step (bm, held) (Free b) = (free bm b, held - {b})"

text \<open>The discipline on the client: it frees only an id it holds.\<close>

fun frees_held :: "BlockManager \<times> nat set \<Rightarrow> bm_call list \<Rightarrow> bool" where
  "frees_held st [] = True"
| "frees_held st (Allocate # cs) = frees_held (bm_step st Allocate) cs"
| "frees_held st (Free b # cs) = (b \<in> snd st \<and> frees_held (bm_step st (Free b)) cs)"

text \<open>Every \<open>allocate\<close> of the trace hands out an id the client does not hold.\<close>

fun allocates_fresh :: "BlockManager \<times> nat set \<Rightarrow> bm_call list \<Rightarrow> bool" where
  "allocates_fresh st [] = True"
| "allocates_fresh st (Allocate # cs) =
     ((case fst (allocate (fst st)) of None \<Rightarrow> True | Some b \<Rightarrow> b \<notin> snd st)
      \<and> allocates_fresh (bm_step st Allocate) cs)"
| "allocates_fresh st (Free b # cs) = allocates_fresh (bm_step st (Free b)) cs"

section \<open>Inodes and the file system state\<close>

text \<open>
  The classes \<open>File\<close> and \<open>Directory\<close> are the two constructors of \<open>INode\<close>; both carry
  the fields of the base class. A directory's \<open>entries\<close> is a Python dict in insertion
  order, from a name to a reference to the child object.

  Python objects are shared by reference, so inode objects live in a store \<open>objs\<close> and are
  named by their address. Each inode object is created with a fresh id from
  \<open>_alloc_inode_id\<close>, and the model uses that id as the object's address. The registry
  \<open>inodes\<close> is the dict of the source, from an id to the reference of its object. An
  object dropped from the registry and from its parent stays in the store, unreferenced.
  The locks of the inodes and of the file system are left out, as the block manager's is.
\<close>

datatype INode =
    File (inode_id: nat) (size_bytes: int) (blocks: "nat list")
  | Directory (inode_id: nat) (size_bytes: int) (blocks: "nat list")
      (entries: "(string \<times> nat) list")

fun is_dir :: "INode \<Rightarrow> bool" where
  "is_dir (Directory _ _ _ _) = True"
| "is_dir (File _ _ _) = False"

definition File_init :: "nat \<Rightarrow> INode" where
  "File_init iid = File iid 0 []"

definition Directory_init :: "nat \<Rightarrow> INode" where
  "Directory_init iid = Directory iid 0 [] []"

record FileSystem =
  block_mgr :: BlockManager
  objs :: "nat \<rightharpoonup> INode"
  inodes :: "nat \<rightharpoonup> nat"
  next_inode_id :: nat
  data_blocks :: "nat \<rightharpoonup> DataBlock"
  root :: nat

definition alloc_inode_id :: "FileSystem \<Rightarrow> nat \<times> FileSystem" where
  "alloc_inode_id fs = (next_inode_id fs, fs\<lparr>next_inode_id := next_inode_id fs + 1\<rparr>)"

text \<open>
  The constructor, on the first call (the class is a singleton: a later call returns the
  same object without running the body again).
\<close>

definition FileSystem_init :: "int \<Rightarrow> FileSystem" where
  "FileSystem_init total_blocks =
     (let fs0 = \<lparr>block_mgr = BlockManager_init total_blocks, objs = Map.empty,
                 inodes = Map.empty, next_inode_id = 1, data_blocks = Map.empty,
                 root = 0\<rparr>;
          (iid, fs1) = alloc_inode_id fs0
      in fs1\<lparr>objs := (objs fs1)(iid \<mapsto> Directory_init iid),
              inodes := (inodes fs1)(iid \<mapsto> iid),
              root := iid\<rparr>)"

section \<open>Path resolution\<close>

text \<open>
  The loop of \<open>_traverse\<close>, from the node \<open>cur\<close> over the remaining names. The result is
  the address of the inode found. A reference always has an object in Python; an address
  the store does not hold is answered like a node that is no directory.
\<close>

fun traverse_from :: "FileSystem \<Rightarrow> nat \<Rightarrow> string list \<Rightarrow> nat option" where
  "traverse_from fs cur [] = Some cur"
| "traverse_from fs cur (name # parts) =
     (case objs fs cur of
        Some (Directory _ _ _ ents) \<Rightarrow>
          (case map_of ents name of
             None \<Rightarrow> None
           | Some child \<Rightarrow> traverse_from fs child parts)
      | _ \<Rightarrow> None)"

definition path_parts :: "string \<Rightarrow> string list" where
  "path_parts path = filter (\<lambda>p. p \<noteq> []) (str_split CHR ''/'' path)"

definition traverse :: "FileSystem \<Rightarrow> string \<Rightarrow> nat option" where
  "traverse fs path = traverse_from fs (root fs) (path_parts path)"

text \<open>
  The first two lines of \<open>mkdir\<close>, \<open>create_file\<close> and \<open>delete\<close>: split the path at its
  last slash and resolve the parent, the root when nothing stands before the slash.
\<close>

definition split_parent :: "FileSystem \<Rightarrow> string \<Rightarrow> error + (nat option \<times> string)" where
  "split_parent fs path =
     (case unpack2 (str_rsplit1 CHR ''/'' path) of
        Inl e \<Rightarrow> Inl e
      | Inr (parent_path, name) \<Rightarrow>
          Inr (traverse fs (if parent_path = [] then ''/'' else parent_path), name))"

section \<open>The operations\<close>

text \<open>
  Each operation takes the state and returns its answer with the state it leaves. The
  answer is \<open>Inl e\<close> when the Python raises \<open>e\<close>; the state is then what the call had
  done before the exception.
\<close>

definition mkdir :: "FileSystem \<Rightarrow> string \<Rightarrow> (error + bool) \<times> FileSystem" where
  "mkdir fs path =
     (case split_parent fs path of
        Inl e \<Rightarrow> (Inl e, fs)
      | Inr (parent, name) \<Rightarrow>
          (case parent of
             None \<Rightarrow> (Inr False, fs)
           | Some p \<Rightarrow>
               (case objs fs p of
                  Some (Directory pid psz pbl ents) \<Rightarrow>
                    if name \<in> fst ` set ents then (Inr False, fs)
                    else
                      let (iid, fs1) = alloc_inode_id fs;
                          fs2 = fs1\<lparr>objs := (objs fs1)(iid \<mapsto> Directory_init iid)\<rparr>;
                          fs3 = fs2\<lparr>inodes := (inodes fs2)(iid \<mapsto> iid)\<rparr>
                      in (Inr True,
                          fs3\<lparr>objs := (objs fs3)(p \<mapsto>
                                 Directory pid psz pbl (ents @ [(name, iid)]))\<rparr>)
                | _ \<Rightarrow> (Inr False, fs))))"

definition create_file :: "FileSystem \<Rightarrow> string \<Rightarrow> (error + bool) \<times> FileSystem" where
  "create_file fs path =
     (case split_parent fs path of
        Inl e \<Rightarrow> (Inl e, fs)
      | Inr (parent, name) \<Rightarrow>
          (case parent of
             None \<Rightarrow> (Inr False, fs)
           | Some p \<Rightarrow>
               (case objs fs p of
                  Some (Directory pid psz pbl ents) \<Rightarrow>
                    if name \<in> fst ` set ents then (Inr False, fs)
                    else
                      let (iid, fs1) = alloc_inode_id fs;
                          fs2 = fs1\<lparr>objs := (objs fs1)(iid \<mapsto> File_init iid)\<rparr>;
                          fs3 = fs2\<lparr>inodes := (inodes fs2)(iid \<mapsto> iid)\<rparr>
                      in (Inr True,
                          fs3\<lparr>objs := (objs fs3)(p \<mapsto>
                                 Directory pid psz pbl (ents @ [(name, iid)]))\<rparr>)
                | _ \<Rightarrow> (Inr False, fs))))"

text \<open>
  The allocation loop of \<open>write\<close> (here \<open>write_file\<close>: the name is taken in Isabelle), on the block manager, the file's block list and the
  data-block dict. The flag is False when the loop left through \<open>return False\<close>.
\<close>

function alloc_loop ::
  "int \<Rightarrow> BlockManager \<Rightarrow> nat list \<Rightarrow> (nat \<rightharpoonup> DataBlock)
     \<Rightarrow> bool \<times> BlockManager \<times> nat list \<times> (nat \<rightharpoonup> DataBlock)" where
  "alloc_loop end_off bm blks dbs =
     (if end_off > int (length blks) * int BLOCK_SIZE then
        (case fst (allocate bm) of
           None \<Rightarrow> (False, snd (allocate bm), blks, dbs)
         | Some blk \<Rightarrow>
             alloc_loop end_off (snd (allocate bm)) (blks @ [blk])
               (dbs(blk \<mapsto> DataBlock_init blk)))
      else (True, bm, blks, dbs))"
  by pat_completeness auto
termination
  by (relation "measure (\<lambda>(end_off, bm, blks, dbs). length (free_blocks bm))")
     (auto simp: allocate_def split: if_splits)

declare alloc_loop.simps [simp del]

text \<open>
  The copy loop of \<open>write\<close>: one byte per step at index \<open>idx\<close>. On an exception the
  dict is returned as the loop left it.
\<close>

fun write_bytes ::
  "nat list \<Rightarrow> (nat \<rightharpoonup> DataBlock) \<Rightarrow> int \<Rightarrow> byte list
     \<Rightarrow> (error + unit) \<times> (nat \<rightharpoonup> DataBlock)" where
  "write_bytes blks dbs idx [] = (Inr (), dbs)"
| "write_bytes blks dbs idx (b # rest) =
     (case list_getitem blks (idx div int BLOCK_SIZE) of
        Inl e \<Rightarrow> (Inl e, dbs)
      | Inr blk \<Rightarrow>
          (case dbs blk of
             None \<Rightarrow> (Inl KeyError, dbs)
           | Some d \<Rightarrow>
               (case list_setitem (data d) (idx mod int BLOCK_SIZE) b of
                  Inl e \<Rightarrow> (Inl e, dbs)
                | Inr bytes \<Rightarrow>
                    write_bytes blks (dbs(blk \<mapsto> d\<lparr>data := bytes\<rparr>)) (idx + 1) rest)))"

definition write_file ::
  "FileSystem \<Rightarrow> string \<Rightarrow> byte list \<Rightarrow> int \<Rightarrow> (error + bool) \<times> FileSystem" where
  "write_file fs path d offset =
     (case traverse fs path of
        None \<Rightarrow> (Inr False, fs)
      | Some a \<Rightarrow>
          (case objs fs a of
             Some (File iid sz bl) \<Rightarrow>
               let end_off = offset + int (length d);
                   (ok, bm', bl', dbs') = alloc_loop end_off (block_mgr fs) bl (data_blocks fs);
                   fs1 = fs\<lparr>block_mgr := bm', objs := (objs fs)(a \<mapsto> File iid sz bl'),
                            data_blocks := dbs'\<rparr>
               in if \<not> ok then (Inr False, fs1)
                  else
                    (case write_bytes bl' dbs' offset d of
                       (Inl e, dbs'') \<Rightarrow> (Inl e, fs1\<lparr>data_blocks := dbs''\<rparr>)
                     | (Inr _, dbs'') \<Rightarrow>
                         (Inr True,
                          fs1\<lparr>data_blocks := dbs'',
                              objs := (objs fs1)(a \<mapsto> File iid (max sz end_off) bl')\<rparr>))
           | _ \<Rightarrow> (Inr False, fs)))"

text \<open>The copy loop of \<open>read\<close>: \<open>n\<close> bytes from index \<open>idx\<close> on.\<close>

fun read_bytes ::
  "nat list \<Rightarrow> (nat \<rightharpoonup> DataBlock) \<Rightarrow> int \<Rightarrow> nat \<Rightarrow> error + byte list" where
  "read_bytes blks dbs idx 0 = Inr []"
| "read_bytes blks dbs idx (Suc n) =
     (case list_getitem blks (idx div int BLOCK_SIZE) of
        Inl e \<Rightarrow> Inl e
      | Inr blk \<Rightarrow>
          (case dbs blk of
             None \<Rightarrow> Inl KeyError
           | Some d \<Rightarrow>
               (case list_getitem (data d) (idx mod int BLOCK_SIZE) of
                  Inl e \<Rightarrow> Inl e
                | Inr b \<Rightarrow>
                    (case read_bytes blks dbs (idx + 1) n of
                       Inl e \<Rightarrow> Inl e
                     | Inr rest \<Rightarrow> Inr (b # rest)))))"

text \<open>\<open>read\<close> has no assignment to the state: it returns the state it was given.\<close>

definition read ::
  "FileSystem \<Rightarrow> string \<Rightarrow> int \<Rightarrow> int \<Rightarrow> (error + byte list option) \<times> FileSystem" where
  "read fs path sz offset =
     (case traverse fs path of
        None \<Rightarrow> (Inr None, fs)
      | Some a \<Rightarrow>
          (case objs fs a of
             Some (File iid fsz bl) \<Rightarrow>
               if offset \<ge> fsz then (Inr (Some []), fs)
               else
                 (case read_bytes bl (data_blocks fs) offset (nat (min sz (fsz - offset))) of
                    Inl e \<Rightarrow> (Inl e, fs)
                  | Inr bs \<Rightarrow> (Inr (Some bs), fs))
           | _ \<Rightarrow> (Inr None, fs)))"

definition ls :: "FileSystem \<Rightarrow> string \<Rightarrow> (error + string list option) \<times> FileSystem" where
  "ls fs path =
     (case traverse fs path of
        None \<Rightarrow> (Inr None, fs)
      | Some a \<Rightarrow>
          (case objs fs a of
             Some (Directory _ _ _ ents) \<Rightarrow> (Inr (Some (map fst ents)), fs)
           | _ \<Rightarrow> (Inr None, fs)))"

text \<open>
  \<open>delete\<close>: \<open>entries.pop(name, None)\<close> drops the entry of \<open>name\<close>; the blocks of a file
  go back to the block manager one by one; \<open>del self.inodes[k]\<close> raises KeyError when
  the registry has no key \<open>k\<close>. The child named by the entry always has an object in
  Python; an address the store does not hold is answered False after the pop, as a
  popped value that is not truthy would be.
\<close>

definition delete :: "FileSystem \<Rightarrow> string \<Rightarrow> (error + bool) \<times> FileSystem" where
  "delete fs path =
     (case split_parent fs path of
        Inl e \<Rightarrow> (Inl e, fs)
      | Inr (parent, name) \<Rightarrow>
          (case parent of
             None \<Rightarrow> (Inr False, fs)
           | Some p \<Rightarrow>
               (case objs fs p of
                  Some (Directory pid psz pbl ents) \<Rightarrow>
                    (case map_of ents name of
                       None \<Rightarrow> (Inr False, fs)
                     | Some c \<Rightarrow>
                         let fs1 = fs\<lparr>objs := (objs fs)(p \<mapsto>
                                      Directory pid psz pbl
                                        (filter (\<lambda>e. fst e \<noteq> name) ents))\<rparr>
                         in (case objs fs1 c of
                               None \<Rightarrow> (Inr False, fs1)
                             | Some node \<Rightarrow>
                                 let fs2 = (if \<not> is_dir node
                                            then fs1\<lparr>block_mgr :=
                                                   foldl free (block_mgr fs1) (blocks node)\<rparr>
                                            else fs1)
                                 in if inode_id node \<in> dom (inodes fs2)
                                    then (Inr True,
                                          fs2\<lparr>inodes := (inodes fs2)(inode_id node := None)\<rparr>)
                                    else (Inl KeyError, fs2)))
                | _ \<Rightarrow> (Inr False, fs))))"

section \<open>Runs of the public interface\<close>

datatype call =
    Mkdir string
  | CreateFile string
  | Write string "byte list" int
  | Read string int int
  | Ls string
  | Delete string

fun exec :: "FileSystem \<Rightarrow> call \<Rightarrow> FileSystem" where
  "exec fs (Mkdir p) = snd (mkdir fs p)"
| "exec fs (CreateFile p) = snd (create_file fs p)"
| "exec fs (Write p d off) = snd (write_file fs p d off)"
| "exec fs (Read p n off) = snd (read fs p n off)"
| "exec fs (Ls p) = snd (ls fs p)"
| "exec fs (Delete p) = snd (delete fs p)"

definition run :: "FileSystem \<Rightarrow> call list \<Rightarrow> FileSystem" where
  "run fs cs = foldl exec fs cs"

section \<open>Notions used in the properties\<close>

text \<open>
  What the allocation loop of \<open>write\<close> has done when it answers \<open>r\<close>, in terms of the list
  \<open>new\<close> of the block ids it allocated: they are appended to the block list, they came
  off the end of the free list, each has a fresh data block, and the flag tells whether
  the blocks now cover the end offset or the free list ran empty before.
\<close>

definition alloc_post ::
  "int \<Rightarrow> BlockManager \<Rightarrow> nat list \<Rightarrow> (nat \<rightharpoonup> DataBlock)
     \<Rightarrow> bool \<times> BlockManager \<times> nat list \<times> (nat \<rightharpoonup> DataBlock) \<Rightarrow> nat list \<Rightarrow> bool" where
  "alloc_post e bm bl dbs r new =
     (case r of (ok, bm', bl', dbs') \<Rightarrow>
        bl' = bl @ new \<and> free_blocks bm = free_blocks bm' @ rev new
        \<and> (ok \<longrightarrow> e \<le> int (length bl') * int BLOCK_SIZE)
        \<and> (\<not> ok \<longrightarrow> free_blocks bm' = [] \<and> int (length bl') * int BLOCK_SIZE < e)
        \<and> (\<forall>b. dbs' b = (if b \<in> set new then Some (DataBlock_init b) else dbs b)))"

text \<open>The entries of the object at \<open>a\<close> when it is a directory.\<close>

definition dir_entries :: "FileSystem \<Rightarrow> nat \<Rightarrow> (string \<times> nat) list option" where
  "dir_entries fs a = (case objs fs a of Some (Directory _ _ _ ents) \<Rightarrow> Some ents | _ \<Rightarrow> None)"

text \<open>
  Resolution as the specification words it: \<open>walks fs a names z\<close> holds when, starting at
  the node \<open>a\<close>, every name is looked up in a node that is a directory and has an entry of
  that name, and the last entry leads to \<open>z\<close>.
\<close>

inductive walks :: "FileSystem \<Rightarrow> nat \<Rightarrow> string list \<Rightarrow> nat \<Rightarrow> bool" for fs where
  walks_Nil: "walks fs a [] a"
| walks_Cons: "objs fs a = Some (Directory i s b ents) \<Longrightarrow> map_of ents name = Some c
     \<Longrightarrow> walks fs c names z \<Longrightarrow> walks fs a (name # names) z"

text \<open>The lookup of \<open>name\<close> in the node \<open>m\<close> fails: no directory, or no such entry.\<close>

definition lookup_fails :: "FileSystem \<Rightarrow> nat \<Rightarrow> string \<Rightarrow> bool" where
  "lookup_fails fs m name =
     (case objs fs m of
        Some (Directory _ _ _ ents) \<Rightarrow> name \<notin> fst ` set ents
      | _ \<Rightarrow> True)"

text \<open>
  The capacity invariant: the size of every inode is covered by its blocks, every block
  of an inode has an entry in the data-block dict, and every data block holds
  \<open>BLOCK_SIZE\<close> bytes.
\<close>

definition cap_inv :: "FileSystem \<Rightarrow> bool" where
  "cap_inv fs =
     ((\<forall>a node. objs fs a = Some node \<longrightarrow>
          size_bytes node \<le> int (length (blocks node)) * int BLOCK_SIZE
          \<and> set (blocks node) \<subseteq> dom (data_blocks fs))
      \<and> (\<forall>b d. data_blocks fs b = Some d \<longrightarrow> length (data d) = BLOCK_SIZE))"

text \<open>
  \<open>edge fs p name c\<close>: the object at \<open>p\<close> is a directory with an entry \<open>name\<close> that refers
  to the object at \<open>c\<close>.
\<close>

definition edge :: "FileSystem \<Rightarrow> nat \<Rightarrow> string \<Rightarrow> nat \<Rightarrow> bool" where
  "edge fs p name c = (\<exists>ents. dir_entries fs p = Some ents \<and> (name, c) \<in> set ents)"

text \<open>
  The tree invariant. The root is a directory; every object sits at the address of its
  inode id, between the root's id and the next id to hand out; an entry refers to an
  object in the store that is younger than the directory; the names of a directory are
  distinct; no object is referred to by two entries; the registry maps an id to the
  object of that id, holds the root, and holds every child of a registered directory.
\<close>

definition tree_inv :: "FileSystem \<Rightarrow> bool" where
  "tree_inv fs =
     (dir_entries fs (root fs) \<noteq> None
      \<and> (\<forall>a node. objs fs a = Some node \<longrightarrow>
            inode_id node = a \<and> root fs \<le> a \<and> a < next_inode_id fs)
      \<and> (\<forall>p name c. edge fs p name c \<longrightarrow> p < c \<and> c \<in> dom (objs fs))
      \<and> (\<forall>p ents. dir_entries fs p = Some ents \<longrightarrow> distinct (map fst ents))
      \<and> (\<forall>p name c p' name'. edge fs p name c \<and> edge fs p' name' c \<longrightarrow> p' = p \<and> name' = name)
      \<and> (\<forall>k v. inodes fs k = Some v \<longrightarrow> v = k \<and> k \<in> dom (objs fs))
      \<and> root fs \<in> dom (inodes fs)
      \<and> (\<forall>p name c. p \<in> dom (inodes fs) \<and> edge fs p name c \<longrightarrow> c \<in> dom (inodes fs)))"

text \<open>
  The two changes the operations make to the directory tree, as relations between the
  state before and the state after. \<open>entry_added\<close>: the directory \<open>p\<close> gets an entry
  \<open>name\<close> for the new object \<open>node\<close>, stored and registered under the next inode id.
  \<open>entry_removed\<close>: the entry \<open>name\<close> of the directory \<open>p\<close>, which led to the object
  \<open>node\<close> at \<open>c\<close>, is dropped, the blocks of a file go back to the free list, and the
  registry loses the key \<open>c\<close>.
\<close>

definition entry_added :: "FileSystem \<Rightarrow> FileSystem \<Rightarrow> nat \<Rightarrow> string \<Rightarrow> INode \<Rightarrow> bool" where
  "entry_added fs fs' p name node =
     (\<exists>pid psz pbl ents.
        objs fs p = Some (Directory pid psz pbl ents) \<and> name \<notin> fst ` set ents
        \<and> fs' = fs\<lparr>objs := (objs fs)(next_inode_id fs \<mapsto> node,
                        p \<mapsto> Directory pid psz pbl (ents @ [(name, next_inode_id fs)])),
                    inodes := (inodes fs)(next_inode_id fs \<mapsto> next_inode_id fs),
                    next_inode_id := next_inode_id fs + 1\<rparr>)"

definition entry_removed ::
  "FileSystem \<Rightarrow> FileSystem \<Rightarrow> nat \<Rightarrow> string \<Rightarrow> nat \<Rightarrow> INode \<Rightarrow> bool" where
  "entry_removed fs fs' p name c node =
     (\<exists>pid psz pbl ents.
        objs fs p = Some (Directory pid psz pbl ents) \<and> map_of ents name = Some c
        \<and> objs fs c = Some node
        \<and> fs' = fs\<lparr>objs := (objs fs)(p \<mapsto>
                        Directory pid psz pbl (filter (\<lambda>e. fst e \<noteq> name) ents)),
                    block_mgr := (if is_dir node then block_mgr fs
                                  else foldl free (block_mgr fs) (blocks node)),
                    inodes := (inodes fs)(c := None)\<rparr>)"

text \<open>
  \<open>removes_nonempty_dir fs c\<close>: the call \<open>c\<close> is a \<open>delete\<close> whose target, in the state
  \<open>fs\<close>, is a directory that has entries. \<open>no_orphaning fs cs\<close>: no call of the run \<open>cs\<close>
  from \<open>fs\<close> is one.
\<close>

fun removes_nonempty_dir :: "FileSystem \<Rightarrow> call \<Rightarrow> bool" where
  "removes_nonempty_dir fs (Delete path) =
     (case split_parent fs path of
        Inr (Some p, name) \<Rightarrow>
          (case dir_entries fs p of
             Some ents \<Rightarrow>
               (case map_of ents name of
                  Some c \<Rightarrow> (case dir_entries fs c of Some (e # es) \<Rightarrow> True | _ \<Rightarrow> False)
                | None \<Rightarrow> False)
           | None \<Rightarrow> False)
      | _ \<Rightarrow> False)"
| "removes_nonempty_dir fs _ = False"

fun no_orphaning :: "FileSystem \<Rightarrow> call list \<Rightarrow> bool" where
  "no_orphaning fs [] = True"
| "no_orphaning fs (c # cs) = (\<not> removes_nonempty_dir fs c \<and> no_orphaning (exec fs c) cs)"

text \<open>Every inode of the registry is reached from the root by a chain of names.\<close>

definition all_reachable :: "FileSystem \<Rightarrow> bool" where
  "all_reachable fs = (\<forall>i \<in> dom (inodes fs). \<exists>names. walks fs (root fs) names i)"

text \<open>
  \<open>removed_dir fs a\<close>: the object at \<open>a\<close> is a directory that is not in the registry.
  The registry starts with the root and loses a key only in \<open>delete\<close>, so this is a
  directory that \<open>delete\<close> has removed; the program holds no reference to it any more,
  the store of the model keeps it with the entries it had. \<open>anchored fs\<close>: every inode
  of the registry is reached by a chain of names from the root or from such a directory.
\<close>

definition removed_dir :: "FileSystem \<Rightarrow> nat \<Rightarrow> bool" where
  "removed_dir fs a = (a \<notin> dom (inodes fs) \<and> dir_entries fs a \<noteq> None)"

definition anchored :: "FileSystem \<Rightarrow> bool" where
  "anchored fs =
     (\<forall>i \<in> dom (inodes fs). \<exists>a names. walks fs a names i \<and> (a = root fs \<or> removed_dir fs a))"

text \<open>
  The block invariant, over the registered inodes: the free list has no duplicates; the
  block list of a registered inode has no duplicates and shares no id with the free
  list; two registered inodes share no block.
\<close>

definition blocks_of :: "FileSystem \<Rightarrow> nat \<Rightarrow> nat list option" where
  "blocks_of fs a = map_option blocks (objs fs a)"

definition block_inv :: "FileSystem \<Rightarrow> bool" where
  "block_inv fs =
     (distinct (free_blocks (block_mgr fs))
      \<and> (\<forall>a bl. a \<in> dom (inodes fs) \<and> blocks_of fs a = Some bl \<longrightarrow>
            distinct bl \<and> set bl \<inter> set (free_blocks (block_mgr fs)) = {})
      \<and> (\<forall>a b bla blb. a \<in> dom (inodes fs) \<and> b \<in> dom (inodes fs) \<and> a \<noteq> b
            \<and> blocks_of fs a = Some bla \<and> blocks_of fs b = Some blb \<longrightarrow>
            set bla \<inter> set blb = {}))"

text \<open>
  \<open>cell bl dbs j\<close>: the byte at file index \<open>j\<close>, read through the block list \<open>bl\<close>.
  \<open>blocks_ok bl dbs\<close>: the block list has no duplicates and each of its ids has a data
  block of \<open>BLOCK_SIZE\<close> bytes.
\<close>

definition cell :: "nat list \<Rightarrow> (nat \<rightharpoonup> DataBlock) \<Rightarrow> int \<Rightarrow> byte option" where
  "cell bl dbs j =
     (case dbs (bl ! nat (j div int BLOCK_SIZE)) of
        None \<Rightarrow> None
      | Some blk \<Rightarrow> Some (data blk ! nat (j mod int BLOCK_SIZE)))"

definition blocks_ok :: "nat list \<Rightarrow> (nat \<rightharpoonup> DataBlock) \<Rightarrow> bool" where
  "blocks_ok bl dbs =
     (distinct bl \<and> (\<forall>b \<in> set bl. \<exists>blk. dbs b = Some blk \<and> length (data blk) = BLOCK_SIZE))"

section \<open>The block manager alone\<close>

lemma allocate_None: "(fst (allocate bm) = None) = (free_blocks bm = [])"
  by (simp add: allocate_def)

lemma allocate_snoc:
  "free_blocks bm = xs @ [b] \<Longrightarrow> allocate bm = (Some b, bm\<lparr>free_blocks := xs\<rparr>)"
  by (simp add: allocate_def)

lemma allocate_Some:
  assumes "fst (allocate bm) = Some b"
  shows "free_blocks bm = free_blocks (snd (allocate bm)) @ [b]"
proof (cases "free_blocks bm" rule: rev_cases)
  case Nil
  with assms show ?thesis by (simp add: allocate_def)
next
  case (snoc xs x)
  with assms allocate_snoc [OF snoc] show ?thesis by simp
qed

lemma bm_inv_step:
  assumes "distinct (free_blocks bm)" and "set (free_blocks bm) \<inter> held = {}"
    and "c = Allocate \<or> (\<exists>b. c = Free b \<and> b \<in> held)"
  shows "distinct (free_blocks (fst (bm_step (bm, held) c)))
       \<and> set (free_blocks (fst (bm_step (bm, held) c))) \<inter> snd (bm_step (bm, held) c) = {}"
proof (cases c)
  case Allocate
  show ?thesis
  proof (cases "free_blocks bm" rule: rev_cases)
    case Nil
    with assms Allocate show ?thesis by (simp add: allocate_def)
  next
    case (snoc xs x)
    with assms Allocate allocate_snoc [OF snoc] show ?thesis by auto
  qed
next
  case (Free b)
  with assms show ?thesis by (auto simp: free_def)
qed

lemma allocates_fresh_inv:
  "distinct (free_blocks bm) \<Longrightarrow> set (free_blocks bm) \<inter> held = {}
     \<Longrightarrow> frees_held (bm, held) cs \<Longrightarrow> allocates_fresh (bm, held) cs"
proof (induction cs arbitrary: bm held)
  case Nil
  show ?case by simp
next
  case (Cons c cs)
  obtain bm' held' where st: "bm_step (bm, held) c = (bm', held')"
    by (cases "bm_step (bm, held) c")
  have ok: "c = Allocate \<or> (\<exists>b. c = Free b \<and> b \<in> held)"
    using Cons.prems(3) by (cases c) auto
  from bm_inv_step [OF Cons.prems(1,2) ok] st
  have inv: "distinct (free_blocks bm')" "set (free_blocks bm') \<inter> held' = {}" by auto
  have rest: "frees_held (bm', held') cs"
    using Cons.prems(3) st by (cases c) auto
  have tl: "allocates_fresh (bm', held') cs"
    by (rule Cons.IH [OF inv rest])
  show ?case
  proof (cases c)
    case Allocate
    have "case fst (allocate bm) of None \<Rightarrow> True | Some b \<Rightarrow> b \<notin> held"
    proof (cases "fst (allocate bm)")
      case None then show ?thesis by simp
    next
      case (Some b)
      from allocate_Some [OF Some] have "b \<in> set (free_blocks bm)" by (metis in_set_conv_decomp)
      with Cons.prems(2) Some show ?thesis by auto
    qed
    with Allocate tl st show ?thesis by (auto simp del: bm_step.simps split: option.splits)
  next
    case (Free b)
    with tl st show ?thesis by simp
  qed
qed

lemma BlockManager_init_inv:
  "distinct (free_blocks (BlockManager_init n)) \<and> set (free_blocks (BlockManager_init n)) \<inter> {} = {}"
  by (simp add: BlockManager_init_def)

text \<open>
  Claim C9 (allocation exclusivity). \<open>allocate\<close> answers None exactly when the free list
  is empty; otherwise it removes the id it returns from the free list. From a block manager
  whose free list has no duplicates and shares no id with the ids the client holds (the
  fresh manager with nothing held is one), along every trace of \<open>allocate\<close> and \<open>free\<close>
  calls in which \<open>free\<close> is called only on an id held at that moment, no \<open>allocate\<close>
  returns an id that is still held.
\<close>

theorem allocate_exclusive:
  assumes "distinct (free_blocks bm)" and "set (free_blocks bm) \<inter> held = {}"
    and "frees_held (bm, held) cs"
  shows "((fst (allocate bm) = None) = (free_blocks bm = []))
       \<and> (\<forall>b. fst (allocate bm) = Some b \<longrightarrow>
             free_blocks bm = free_blocks (snd (allocate bm)) @ [b]
             \<and> b \<notin> set (free_blocks (snd (allocate bm))) \<and> b \<notin> held)
       \<and> allocates_fresh (bm, held) cs"
proof -
  have "b \<notin> set (free_blocks (snd (allocate bm))) \<and> b \<notin> held"
    if h: "fst (allocate bm) = Some b" for b
  proof -
    from allocate_Some [OF h] have eq: "free_blocks bm = free_blocks (snd (allocate bm)) @ [b]" .
    from assms(1) eq have "distinct (free_blocks (snd (allocate bm)) @ [b])" by simp
    moreover from eq have "b \<in> set (free_blocks bm)" by (metis in_set_conv_decomp)
    ultimately show ?thesis using assms(2) by auto
  qed
  then show ?thesis
    using allocate_None allocate_Some allocates_fresh_inv [OF assms] by blast
qed

theorem allocate_exclusive_witness:
  "frees_held (BlockManager_init 3, {}) [Allocate, Allocate, Free 2, Allocate, Free 1, Allocate]
   \<and> allocates_fresh (BlockManager_init 3, {}) [Allocate, Allocate, Free 2, Allocate, Free 1, Allocate]
   \<and> fst (allocate (BlockManager_init 3)) = Some 2
   \<and> free_blocks (snd (allocate (BlockManager_init 3))) = [0, 1]"
proof -
  have d: "distinct (free_blocks (BlockManager_init 3))"
    and e: "set (free_blocks (BlockManager_init 3)) \<inter> {} = {}"
    using BlockManager_init_inv [of 3] by simp_all
  have h: "frees_held (BlockManager_init 3, {}) [Allocate, Allocate, Free 2, Allocate, Free 1, Allocate]"
    by (simp add: BlockManager_init_def allocate_def free_def upt_rec)
  have a: "fst (allocate (BlockManager_init 3)) = Some 2"
    and b: "free_blocks (snd (allocate (BlockManager_init 3))) = [0, 1]"
    by (simp_all add: BlockManager_init_def allocate_def upt_rec)
  from allocate_exclusive [OF d e h] h a b show ?thesis by blast
qed

section \<open>The allocation loop and the size of a file\<close>

lemma BLOCK_SIZE_pos: "0 < BLOCK_SIZE" by (simp add: BLOCK_SIZE_def)

lemma alloc_loop_stop:
  "\<not> e > int (length blks) * int BLOCK_SIZE \<Longrightarrow> alloc_loop e bm blks dbs = (True, bm, blks, dbs)"
  by (subst alloc_loop.simps) simp

lemma alloc_loop_empty:
  "e > int (length blks) * int BLOCK_SIZE \<Longrightarrow> free_blocks bm = []
     \<Longrightarrow> alloc_loop e bm blks dbs = (False, bm, blks, dbs)"
  by (subst alloc_loop.simps) (simp add: allocate_def)

lemma alloc_loop_step:
  "e > int (length blks) * int BLOCK_SIZE \<Longrightarrow> free_blocks bm = xs @ [x]
     \<Longrightarrow> alloc_loop e bm blks dbs
          = alloc_loop e (bm\<lparr>free_blocks := xs\<rparr>) (blks @ [x]) (dbs(x \<mapsto> DataBlock_init x))"
  by (subst alloc_loop.simps) (simp add: allocate_def)

lemma alloc_post_step:
  assumes "alloc_post e (bm\<lparr>free_blocks := xs\<rparr>) (blks @ [x]) (dbs(x \<mapsto> DataBlock_init x)) r new"
    and "free_blocks bm = xs @ [x]"
  shows "alloc_post e bm blks dbs r (x # new)"
proof -
  obtain ok bm' bl' dbs' where r: "r = (ok, bm', bl', dbs')" by (cases r)
  from assms(1) have c: "bl' = (blks @ [x]) @ new
        \<and> free_blocks (bm\<lparr>free_blocks := xs\<rparr>) = free_blocks bm' @ rev new
        \<and> (ok \<longrightarrow> e \<le> int (length bl') * int BLOCK_SIZE)
        \<and> (\<not> ok \<longrightarrow> free_blocks bm' = [] \<and> int (length bl') * int BLOCK_SIZE < e)
        \<and> (\<forall>b. dbs' b = (if b \<in> set new then Some (DataBlock_init b)
                         else (dbs(x \<mapsto> DataBlock_init x)) b))"
    by (auto simp: alloc_post_def r)
  then have xs: "xs = free_blocks bm' @ rev new" by simp
  from c have a: "bl' = (blks @ [x]) @ new" "True"
    "ok \<longrightarrow> e \<le> int (length bl') * int BLOCK_SIZE"
    "\<not> ok \<longrightarrow> free_blocks bm' = [] \<and> int (length bl') * int BLOCK_SIZE < e"
    "\<And>b. dbs' b = (if b \<in> set new then Some (DataBlock_init b)
                    else (dbs(x \<mapsto> DataBlock_init x)) b)"
    by blast+
  have 1: "bl' = blks @ (x # new)" using a(1) by simp
  have 2: "free_blocks bm = free_blocks bm' @ rev (x # new)" using xs assms(2) by simp
  have 3: "dbs' b = (if b \<in> set (x # new) then Some (DataBlock_init b) else dbs b)" for b
    using a(5) [of b] by simp
  show ?thesis unfolding alloc_post_def r prod.case using 1 2 a(3) a(4) 3 by blast
qed

lemma alloc_loop_post: "\<exists>new. alloc_post e bm bl dbs (alloc_loop e bm bl dbs) new"
proof (induction "free_blocks bm" arbitrary: bm bl dbs rule: rev_induct)
  case Nil
  show ?case
  proof (cases "e > int (length bl) * int BLOCK_SIZE")
    case True
    from alloc_loop_empty [OF True Nil [symmetric]] Nil [symmetric] True
    have "alloc_post e bm bl dbs (alloc_loop e bm bl dbs) []"
      by (simp add: alloc_post_def)
    then show ?thesis ..
  next
    case False
    from alloc_loop_stop [OF False] False
    have "alloc_post e bm bl dbs (alloc_loop e bm bl dbs) []"
      by (simp add: alloc_post_def)
    then show ?thesis ..
  qed
next
  case (snoc x xs)
  show ?case
  proof (cases "e > int (length bl) * int BLOCK_SIZE")
    case False
    from alloc_loop_stop [OF False] False
    have "alloc_post e bm bl dbs (alloc_loop e bm bl dbs) []"
      by (simp add: alloc_post_def)
    then show ?thesis ..
  next
    case True
    have f: "free_blocks bm = xs @ [x]" using snoc(2) by simp
    have "xs = free_blocks (bm\<lparr>free_blocks := xs\<rparr>)" by simp
    from snoc(1) [OF this]
    obtain new where
      "alloc_post e (bm\<lparr>free_blocks := xs\<rparr>) (bl @ [x]) (dbs(x \<mapsto> DataBlock_init x))
         (alloc_loop e (bm\<lparr>free_blocks := xs\<rparr>) (bl @ [x]) (dbs(x \<mapsto> DataBlock_init x))) new"
      by (rule exE)
    from alloc_post_step [OF this f]
    have "alloc_post e bm bl dbs (alloc_loop e bm bl dbs) (x # new)"
      by (simp only: alloc_loop_step [OF True f])
    then show ?thesis ..
  qed
qed

lemma alloc_loop_result:
  assumes "alloc_loop e bm bl dbs = (ok, bm', bl', dbs')"
  shows "\<exists>new. bl' = bl @ new \<and> free_blocks bm = free_blocks bm' @ rev new
       \<and> (ok \<longrightarrow> e \<le> int (length bl') * int BLOCK_SIZE)
       \<and> (\<not> ok \<longrightarrow> free_blocks bm' = [] \<and> int (length bl') * int BLOCK_SIZE < e)
       \<and> (\<forall>b. dbs' b = (if b \<in> set new then Some (DataBlock_init b) else dbs b))"
proof -
  from alloc_loop_post [of e bm bl dbs] obtain new where
    "alloc_post e bm bl dbs (alloc_loop e bm bl dbs) new" by (rule exE)
  then have "alloc_post e bm bl dbs (ok, bm', bl', dbs') new" by (simp only: assms)
  then have "bl' = bl @ new \<and> free_blocks bm = free_blocks bm' @ rev new
       \<and> (ok \<longrightarrow> e \<le> int (length bl') * int BLOCK_SIZE)
       \<and> (\<not> ok \<longrightarrow> free_blocks bm' = [] \<and> int (length bl') * int BLOCK_SIZE < e)
       \<and> (\<forall>b. dbs' b = (if b \<in> set new then Some (DataBlock_init b) else dbs b))"
    by (auto simp: alloc_post_def)
  then show ?thesis ..
qed

lemma dir_entries_Some:
  "(dir_entries fs a = Some ents) = (\<exists>i s b. objs fs a = Some (Directory i s b ents))"
  by (auto simp: dir_entries_def split: option.splits INode.splits)

lemma traverse_from_Cons:
  "traverse_from fs cur (name # ps) =
     (case dir_entries fs cur of
        None \<Rightarrow> None
      | Some ents \<Rightarrow> (case map_of ents name of None \<Rightarrow> None | Some c \<Rightarrow> traverse_from fs c ps))"
  by (simp add: dir_entries_def split: option.splits INode.splits)

lemma traverse_from_cong:
  "(\<And>a. dir_entries fs' a = dir_entries fs a) \<Longrightarrow> traverse_from fs' cur ps = traverse_from fs cur ps"
  by (induction ps arbitrary: cur)
     (simp_all add: traverse_from_Cons del: traverse_from.simps(2) split: option.splits)

lemma traverse_cong:
  "(\<And>a. dir_entries fs' a = dir_entries fs a) \<Longrightarrow> root fs' = root fs
     \<Longrightarrow> traverse fs' path = traverse fs path"
  unfolding traverse_def by (simp only: traverse_from_cong [of fs' fs])

lemma dir_entries_File_upd:
  assumes "objs fs a = Some (File iid sz bl)" and "objs fs' = (objs fs)(a \<mapsto> File iid' sz' bl')"
  shows "dir_entries fs' x = dir_entries fs x"
  using assms by (simp add: dir_entries_def)

lemma write_file_File:
  assumes "traverse fs path = Some a" and "objs fs a = Some (File iid sz bl)"
    and "alloc_loop (off + int (length d)) (block_mgr fs) bl (data_blocks fs) = (ok, bm', bl', dbs')"
  shows "write_file fs path d off =
     (if \<not> ok
      then (Inr False, fs\<lparr>block_mgr := bm', objs := (objs fs)(a \<mapsto> File iid sz bl'),
                          data_blocks := dbs'\<rparr>)
      else (case fst (write_bytes bl' dbs' off d) of
              Inl e \<Rightarrow> (Inl e, fs\<lparr>block_mgr := bm', objs := (objs fs)(a \<mapsto> File iid sz bl'),
                                   data_blocks := snd (write_bytes bl' dbs' off d)\<rparr>)
            | Inr u \<Rightarrow> (Inr True,
                 fs\<lparr>block_mgr := bm',
                    objs := (objs fs)(a \<mapsto> File iid (max sz (off + int (length d))) bl'),
                    data_blocks := snd (write_bytes bl' dbs' off d)\<rparr>)))"
  using assms
  by (cases "write_bytes bl' dbs' off d") (simp add: write_file_def Let_def split: sum.splits)

lemmas fs_eval = run_def create_file_def mkdir_def split_parent_def unpack2_def str_rsplit1_def
      traverse_def path_parts_def FileSystem_init_def alloc_inode_id_def Directory_init_def
      File_init_def Let_def BlockManager_init_def

lemma fs_f_traverse: "traverse (run (FileSystem_init 2) [CreateFile ''/f'']) ''/f'' = Some 2"
  by (simp add: fs_eval)

lemma fs_f_objs: "objs (run (FileSystem_init 2) [CreateFile ''/f'']) 2 = Some (File 2 0 [])"
  by (simp add: fs_eval)

lemma fs_f_write:
  "fst (write_file (run (FileSystem_init 2) [CreateFile ''/f'']) ''/f'' [1, 2, 3] 0) = Inr True"
  by (simp add: fs_eval write_file_def alloc_loop.simps allocate_def BLOCK_SIZE_def
      list_getitem_def list_setitem_def DataBlock_init_def upt_rec)

lemma fs_g_eval:
  "traverse (run (FileSystem_init 1) [CreateFile ''/f'']) ''/f'' = Some 2"
  "objs (run (FileSystem_init 1) [CreateFile ''/f'']) 2 = Some (File 2 0 [])"
  "free_blocks (block_mgr (run (FileSystem_init 1) [CreateFile ''/f''])) = [0]"
  by (simp_all add: fs_eval upt_rec)

text \<open>
  Claim C4 (size after a write). When \<open>path\<close> resolves to a file of size \<open>old_size\<close> and
  \<open>write(path, d, off)\<close> returns True, the path still resolves to the same file and the
  file's size is \<open>max(old_size, off + len(d))\<close>.
\<close>

theorem write_file_size:
  assumes "traverse fs path = Some a" and "objs fs a = Some (File iid old_size bl)"
    and "fst (write_file fs path d off) = Inr True"
  shows "traverse (snd (write_file fs path d off)) path = Some a
       \<and> (\<exists>bl'. objs (snd (write_file fs path d off)) a
                  = Some (File iid (max old_size (off + int (length d))) bl'))"
proof -
  obtain ok bm' bl' dbs' where
    al: "alloc_loop (off + int (length d)) (block_mgr fs) bl (data_blocks fs) = (ok, bm', bl', dbs')"
    by (cases "alloc_loop (off + int (length d)) (block_mgr fs) bl (data_blocks fs)") auto
  note w = write_file_File [OF assms(1,2) al]
  from assms(3) w have ok: ok by (auto split: if_splits)
  from assms(3) w ok obtain u where wb: "fst (write_bytes bl' dbs' off d) = Inr u"
    by (cases "fst (write_bytes bl' dbs' off d)") auto
  let ?fs' = "snd (write_file fs path d off)"
  from w ok wb have o: "objs ?fs' = (objs fs)(a \<mapsto> File iid (max old_size (off + int (length d))) bl')"
    and r: "root ?fs' = root fs" by simp_all
  have "traverse ?fs' path = traverse fs path"
    by (rule traverse_cong [OF dir_entries_File_upd [OF assms(2) o] r])
  with assms(1) o show ?thesis by simp
qed

theorem write_file_size_witness:
  "traverse (snd (write_file (run (FileSystem_init 2) [CreateFile ''/f'']) ''/f'' [1, 2, 3] 0))
     ''/f'' = Some 2
   \<and> (\<exists>bl'. objs (snd (write_file (run (FileSystem_init 2) [CreateFile ''/f''])
                      ''/f'' [1, 2, 3] 0)) 2 = Some (File 2 3 bl'))"
  using write_file_size [OF fs_f_traverse fs_f_objs fs_f_write] by simp

lemma alloc_loop_ok_iff:
  assumes "alloc_loop e bm bl dbs = (ok, bm', bl', dbs')"
  shows "ok = (e \<le> int (length bl + length (free_blocks bm)) * int BLOCK_SIZE)"
proof -
  from alloc_loop_result [OF assms] obtain new where n: "bl' = bl @ new"
    "free_blocks bm = free_blocks bm' @ rev new"
    "ok \<longrightarrow> e \<le> int (length bl') * int BLOCK_SIZE"
    "\<not> ok \<longrightarrow> free_blocks bm' = [] \<and> int (length bl') * int BLOCK_SIZE < e"
    by blast
  have l: "length bl' \<le> length bl + length (free_blocks bm)" using n(1,2) by simp
  show ?thesis
  proof (cases ok)
    case True
    from l have "int (length bl') * int BLOCK_SIZE
        \<le> int (length bl + length (free_blocks bm)) * int BLOCK_SIZE"
      by (intro mult_right_mono) simp_all
    with True n(3) show ?thesis by simp
  next
    case False
    with n(4) have "free_blocks bm' = []" "int (length bl') * int BLOCK_SIZE < e" by simp_all
    moreover from this(1) n(1,2) have "length bl' = length bl + length (free_blocks bm)" by simp
    ultimately show ?thesis using False by simp
  qed
qed

lemma write_file_False_iff:
  assumes "traverse fs path = Some a" and "objs fs a = Some (File iid sz bl)"
  shows "(fst (write_file fs path d off) = Inr False)
     = (int (length bl + length (free_blocks (block_mgr fs))) * int BLOCK_SIZE
          < off + int (length d))"
proof -
  obtain ok bm' bl' dbs' where
    al: "alloc_loop (off + int (length d)) (block_mgr fs) bl (data_blocks fs) = (ok, bm', bl', dbs')"
    by (cases "alloc_loop (off + int (length d)) (block_mgr fs) bl (data_blocks fs)") auto
  note w = write_file_File [OF assms al]
  have "(fst (write_file fs path d off) = Inr False) = (\<not> ok)"
    using w by (cases "fst (write_bytes bl' dbs' off d)") (auto split: if_splits)
  with alloc_loop_ok_iff [OF al] show ?thesis by auto
qed

text \<open>
  Claim C3 (block store exhausted during a write). When \<open>path\<close> resolves to a file,
  \<open>write(path, d, off)\<close> returns False exactly when the blocks of the file together with
  the free blocks do not cover \<open>off + len(d)\<close>. The allocation loop has then run the
  block manager empty: every block that was free before the call is in the file's block
  list, after the blocks the file had, in the order \<open>allocate\<close> handed them out; no block
  is free; and the file's size is what it was.
\<close>

theorem write_file_exhausted:
  assumes "traverse fs path = Some a" and "objs fs a = Some (File iid sz bl)"
  shows "(fst (write_file fs path d off) = Inr False)
       = (int (length bl + length (free_blocks (block_mgr fs))) * int BLOCK_SIZE
            < off + int (length d))
     \<and> (fst (write_file fs path d off) = Inr False \<longrightarrow>
          objs (snd (write_file fs path d off)) a
            = Some (File iid sz (bl @ rev (free_blocks (block_mgr fs))))
          \<and> free_blocks (block_mgr (snd (write_file fs path d off))) = []
          \<and> traverse (snd (write_file fs path d off)) path = Some a)"
proof (intro conjI impI)
  show "(fst (write_file fs path d off) = Inr False)
       = (int (length bl + length (free_blocks (block_mgr fs))) * int BLOCK_SIZE
            < off + int (length d))"
    by (rule write_file_False_iff [OF assms])
next
  assume failed: "fst (write_file fs path d off) = Inr False"
  obtain ok bm' bl' dbs' where
    al: "alloc_loop (off + int (length d)) (block_mgr fs) bl (data_blocks fs) = (ok, bm', bl', dbs')"
    by (cases "alloc_loop (off + int (length d)) (block_mgr fs) bl (data_blocks fs)") auto
  note w = write_file_File [OF assms(1,2) al]
  from failed w have ok: "\<not> ok"
    by (cases "fst (write_bytes bl' dbs' off d)") (auto split: if_splits)
  from alloc_loop_result [OF al] ok obtain new where
    n: "bl' = bl @ new" "free_blocks (block_mgr fs) = free_blocks bm' @ rev new"
       "free_blocks bm' = []"
    by blast
  from n(2,3) have new: "new = rev (free_blocks (block_mgr fs))" by simp
  let ?fs' = "snd (write_file fs path d off)"
  from w ok have o: "objs ?fs' = (objs fs)(a \<mapsto> File iid sz bl')"
    and r: "root ?fs' = root fs" and b: "block_mgr ?fs' = bm'" by simp_all
  have "traverse ?fs' path = traverse fs path"
    by (rule traverse_cong [OF dir_entries_File_upd [OF assms(2) o] r])
  then show "traverse ?fs' path = Some a" using assms(1) by simp
  show "objs ?fs' a = Some (File iid sz (bl @ rev (free_blocks (block_mgr fs))))"
    using o n(1) new by simp
  show "free_blocks (block_mgr ?fs') = []" using b n(3) by simp
qed

theorem write_file_exhausted_witness:
  "fst (write_file (run (FileSystem_init 1) [CreateFile ''/f'']) ''/f'' (replicate 4097 1) 0)
     = Inr False
   \<and> objs (snd (write_file (run (FileSystem_init 1) [CreateFile ''/f'']) ''/f''
            (replicate 4097 1) 0)) 2 = Some (File 2 0 [0])
   \<and> free_blocks (block_mgr (snd (write_file (run (FileSystem_init 1) [CreateFile ''/f''])
                                  ''/f'' (replicate 4097 1) 0))) = []
   \<and> traverse (snd (write_file (run (FileSystem_init 1) [CreateFile ''/f'']) ''/f''
                  (replicate 4097 1) 0)) ''/f'' = Some 2"
proof -
  note t = write_file_exhausted [OF fs_g_eval(1) fs_g_eval(2), of "replicate 4097 1" 0]
  have "int (length ([]::nat list) + length [0::nat]) * int BLOCK_SIZE
      < 0 + int (length (replicate 4097 (1::byte)))"
    by (simp add: BLOCK_SIZE_def)
  with t fs_g_eval(3) have f:
    "fst (write_file (run (FileSystem_init 1) [CreateFile ''/f'']) ''/f'' (replicate 4097 1) 0)
       = Inr False" by simp
  with t fs_g_eval(3) show ?thesis by simp
qed

text \<open>
  Claim C6 (no exception crosses the interface), at a path with no slash: on the fresh
  file system \<open>mkdir("abc")\<close>, \<open>create_file("abc")\<close> and \<open>delete("abc")\<close> raise
  ValueError, from the two-name assignment of \<open>path.rsplit("/", 1)\<close>.
\<close>

theorem path_without_slash_raises:
  "fst (mkdir (FileSystem_init 1024) ''abc'') = Inl ValueError
   \<and> fst (create_file (FileSystem_init 1024) ''abc'') = Inl ValueError
   \<and> fst (delete (FileSystem_init 1024) ''abc'') = Inl ValueError"
  by (simp add: mkdir_def create_file_def delete_def split_parent_def unpack2_def str_rsplit1_def)

section \<open>Path resolution and the walk relation\<close>

lemma str_split_not_Nil: "str_split c s \<noteq> []"
  by (induction s) (auto split: list.splits)

lemma str_split_no_sep: "c \<notin> set s \<Longrightarrow> str_split c s = [s]"
  by (induction s) auto

lemma str_split_append: "str_split c (a @ c # b) = str_split c a @ str_split c b"
proof (induction a)
  case Nil
  show ?case by simp
next
  case (Cons x a)
  obtain w ws where w: "str_split c a = w # ws"
    using str_split_not_Nil [of c a] by (cases "str_split c a") auto
  show ?case using Cons w by simp
qed

lemma str_split_parts: "p \<in> set (str_split c s) \<Longrightarrow> c \<notin> set p"
proof (induction s arbitrary: p)
  case Nil
  then show ?case by simp
next
  case (Cons x s)
  obtain w ws where w: "str_split c s = w # ws"
    using str_split_not_Nil [of c s] by (cases "str_split c s") auto
  show ?case
  proof (cases "x = c")
    case True
    with Cons show ?thesis by auto
  next
    case False
    with Cons.prems w have "p = x # w \<or> p \<in> set ws" by simp
    then show ?thesis
    proof
      assume "p = x # w"
      moreover have "c \<notin> set w" using Cons.IH [of w] w by simp
      ultimately show ?thesis using False by simp
    next
      assume "p \<in> set ws"
      then show ?thesis using Cons.IH [of p] w by simp
    qed
  qed
qed

lemma path_parts_append:
  "path_parts (a @ CHR ''/'' # b) = path_parts a @ path_parts b"
  by (simp add: path_parts_def str_split_append)

lemma path_parts_single: "CHR ''/'' \<notin> set s \<Longrightarrow> s \<noteq> [] \<Longrightarrow> path_parts s = [s]"
  by (simp add: path_parts_def str_split_no_sep)

lemma path_parts_Nil: "path_parts [] = []"
  by (simp add: path_parts_def)

lemma path_parts_slash: "path_parts ''/'' = []"
  by (simp add: path_parts_def)

lemma path_parts_elem: "p \<in> set (path_parts path) \<Longrightarrow> p \<noteq> [] \<and> CHR ''/'' \<notin> set p"
  by (auto simp: path_parts_def dest: str_split_parts)

lemma walks_traverse_from: "walks fs a names z \<Longrightarrow> traverse_from fs a names = Some z"
  by (induction rule: walks.induct) simp_all

lemma traverse_from_walks: "traverse_from fs a names = Some z \<Longrightarrow> walks fs a names z"
proof (induction names arbitrary: a)
  case Nil
  then show ?case by (simp add: walks_Nil)
next
  case (Cons name names)
  from Cons.prems obtain i s b ents c where
    "objs fs a = Some (Directory i s b ents)" "map_of ents name = Some c"
    "traverse_from fs c names = Some z"
    by (auto split: option.splits INode.splits)
  with Cons.IH [of c] show ?case by (auto intro: walks_Cons)
qed

lemma map_of_None_iff: "(map_of ents name = None) = (name \<notin> fst ` set ents)"
  by (simp add: map_of_eq_None_iff)

lemma traverse_from_None:
  "(traverse_from fs a names = None) =
     (\<exists>pre name post m. names = pre @ name # post \<and> walks fs a pre m \<and> lookup_fails fs m name)"
proof (induction names arbitrary: a)
  case Nil
  show ?case by simp
next
  case (Cons n ns)
  show ?case
  proof (cases "lookup_fails fs a n")
    case True
    then have "traverse_from fs a (n # ns) = None"
      by (auto simp: lookup_fails_def map_of_None_iff [symmetric]
          split: option.splits INode.splits)
    moreover have "n # ns = [] @ n # ns \<and> walks fs a [] a \<and> lookup_fails fs a n"
      using True by (simp add: walks_Nil)
    ultimately show ?thesis by blast
  next
    case False
    then obtain i s b ents where o: "objs fs a = Some (Directory i s b ents)"
      and "n \<in> fst ` set ents"
      by (auto simp: lookup_fails_def split: option.splits INode.splits)
    then obtain c where m: "map_of ents n = Some c"
      using map_of_None_iff [of ents n] by (cases "map_of ents n") auto
    from o m have t: "traverse_from fs a (n # ns) = traverse_from fs c ns" by simp
    have w: "walks fs a (n # pre) m = walks fs c pre m" for pre m
    proof
      assume "walks fs a (n # pre) m"
      then show "walks fs c pre m" using o m by (cases rule: walks.cases) auto
    next
      assume "walks fs c pre m"
      then show "walks fs a (n # pre) m" using o m by (rule walks_Cons [rotated 2])
    qed
    show ?thesis
    proof
      assume "traverse_from fs a (n # ns) = None"
      with t Cons.IH [of c] obtain pre name post m where
        "ns = pre @ name # post" "walks fs c pre m" "lookup_fails fs m name" by auto
      then have "n # ns = (n # pre) @ name # post \<and> walks fs a (n # pre) m
          \<and> lookup_fails fs m name" using w by simp
      then show "\<exists>pre name post m. n # ns = pre @ name # post \<and> walks fs a pre m
          \<and> lookup_fails fs m name" by blast
    next
      assume "\<exists>pre name post m. n # ns = pre @ name # post \<and> walks fs a pre m
          \<and> lookup_fails fs m name"
      then obtain pre name post m where p: "n # ns = pre @ name # post" "walks fs a pre m"
        "lookup_fails fs m name" by blast
      show "traverse_from fs a (n # ns) = None"
      proof (cases pre)
        case Nil
        with p have "m = a" "name = n" by (auto elim: walks.cases)
        with p(3) False show ?thesis by simp
      next
        case (Cons x pre')
        with p(1) have x: "x = n" "ns = pre' @ name # post" by simp_all
        with p(2) Cons w have "walks fs c pre' m" by simp
        with x p(3) Cons.IH [of c] t show ?thesis by auto
      qed
    qed
  qed
qed

text \<open>
  Claim C5 (path resolution). The names of a path are its pieces between slashes, the
  empty pieces dropped: no name is empty or holds a slash, the names of \<open>a/b\<close> are those
  of \<open>a\<close> followed by those of \<open>b\<close>, and a non-empty path with no slash is its own single
  name. Resolution starts at the root and answers the inode \<open>n\<close> exactly when the names
  walk from the root to \<open>n\<close>, every step a lookup of the name in a directory; it answers
  None exactly when, after some of the names, the next name is looked up in a node that
  is no directory or has no entry of that name. The paths \<open>""\<close> and \<open>"/"\<close> resolve to the
  root.
\<close>

theorem traverse_resolves:
  "traverse fs [] = Some (root fs) \<and> traverse fs ''/'' = Some (root fs)
   \<and> (\<forall>p \<in> set (path_parts path). p \<noteq> [] \<and> CHR ''/'' \<notin> set p)
   \<and> path_parts (a @ CHR ''/'' # b) = path_parts a @ path_parts b
   \<and> (CHR ''/'' \<notin> set s \<and> s \<noteq> [] \<longrightarrow> path_parts s = [s])
   \<and> (traverse fs path = Some n) = walks fs (root fs) (path_parts path) n
   \<and> (traverse fs path = None) =
       (\<exists>pre name post m. path_parts path = pre @ name # post \<and> walks fs (root fs) pre m
          \<and> lookup_fails fs m name)"
proof -
  have 1: "traverse fs [] = Some (root fs)" "traverse fs ''/'' = Some (root fs)"
    by (simp_all add: traverse_def path_parts_Nil path_parts_slash)
  have 2: "\<forall>p \<in> set (path_parts path). p \<noteq> [] \<and> CHR ''/'' \<notin> set p"
    using path_parts_elem by blast
  have 3: "(traverse fs path = Some n) = walks fs (root fs) (path_parts path) n"
    unfolding traverse_def using walks_traverse_from traverse_from_walks by blast
  have 4: "(traverse fs path = None) =
       (\<exists>pre name post m. path_parts path = pre @ name # post \<and> walks fs (root fs) pre m
          \<and> lookup_fails fs m name)"
    unfolding traverse_def by (rule traverse_from_None)
  from 1 2 3 4 path_parts_append [of a b] path_parts_single [of s] show ?thesis by blast
qed

lemma fs_af_eval:
  "traverse (run (FileSystem_init 2) [Mkdir ''/a'', CreateFile ''/a/f'']) ''/a/f'' = Some 3"
  "root (run (FileSystem_init 2) [Mkdir ''/a'', CreateFile ''/a/f'']) = 1"
  "path_parts ''/a/f'' = [''a'', ''f'']"
  by (simp_all add: fs_eval)

theorem traverse_resolves_witness:
  "path_parts ''abc'' = [''abc'']
   \<and> walks (run (FileSystem_init 2) [Mkdir ''/a'', CreateFile ''/a/f'']) 1 [''a'', ''f''] 3"
  using traverse_resolves [of "run (FileSystem_init 2) [Mkdir ''/a'', CreateFile ''/a/f'']"
      "''/a/f''" "[]" "[]" "''abc''" 3] fs_af_eval
  by simp

section \<open>The capacity invariant\<close>

lemma cap_invI:
  assumes "\<And>a node. objs fs a = Some node \<Longrightarrow>
             size_bytes node \<le> int (length (blocks node)) * int BLOCK_SIZE"
    and "\<And>a node. objs fs a = Some node \<Longrightarrow> set (blocks node) \<subseteq> dom (data_blocks fs)"
    and "\<And>b d. data_blocks fs b = Some d \<Longrightarrow> length (data d) = BLOCK_SIZE"
  shows "cap_inv fs"
  using assms unfolding cap_inv_def by blast

lemma cap_invD:
  assumes "cap_inv fs"
  shows "objs fs a = Some node \<Longrightarrow>
             size_bytes node \<le> int (length (blocks node)) * int BLOCK_SIZE"
    and "objs fs a = Some node \<Longrightarrow> set (blocks node) \<subseteq> dom (data_blocks fs)"
    and "data_blocks fs b = Some d \<Longrightarrow> length (data d) = BLOCK_SIZE"
  using assms unfolding cap_inv_def by blast+

lemma cap_inv_init: "cap_inv (FileSystem_init n)"
  by (rule cap_invI)
     (auto simp: FileSystem_init_def alloc_inode_id_def Directory_init_def split: if_splits)

text \<open>A state that differs only in directory entries, new empty inodes and the registry.\<close>

lemma cap_inv_tree_change:
  assumes "cap_inv fs" and "data_blocks fs' = data_blocks fs"
    and "\<And>a node. objs fs' a = Some node \<Longrightarrow>
           (size_bytes node = 0 \<and> blocks node = [])
           \<or> (\<exists>node0. objs fs a = Some node0 \<and> size_bytes node = size_bytes node0
                 \<and> blocks node = blocks node0)"
  shows "cap_inv fs'"
proof (rule cap_invI)
  fix a node assume o: "objs fs' a = Some node"
  from assms(3) [OF o] cap_invD(1) [OF assms(1)]
  show "size_bytes node \<le> int (length (blocks node)) * int BLOCK_SIZE" by auto
  from assms(3) [OF o] show "set (blocks node) \<subseteq> dom (data_blocks fs')"
  proof
    assume "size_bytes node = 0 \<and> blocks node = []"
    then show ?thesis by simp
  next
    assume "\<exists>node0. objs fs a = Some node0 \<and> size_bytes node = size_bytes node0
                 \<and> blocks node = blocks node0"
    then obtain node0 where "objs fs a = Some node0" "blocks node = blocks node0" by blast
    with cap_invD(2) [OF assms(1), of a node0] assms(2) show ?thesis by simp
  qed
next
  fix b d assume "data_blocks fs' b = Some d"
  with assms(2) cap_invD(3) [OF assms(1)] show "length (data d) = BLOCK_SIZE" by simp
qed

lemma cap_inv_mkdir: "cap_inv fs \<Longrightarrow> cap_inv (snd (mkdir fs path))"
  by (erule cap_inv_tree_change)
     (auto simp: mkdir_def alloc_inode_id_def Directory_init_def Let_def
           split: sum.splits option.splits INode.splits if_splits prod.splits)

lemma cap_inv_create_file: "cap_inv fs \<Longrightarrow> cap_inv (snd (create_file fs path))"
  by (erule cap_inv_tree_change)
     (auto simp: create_file_def alloc_inode_id_def File_init_def Let_def
           split: sum.splits option.splits INode.splits if_splits prod.splits)

lemma cap_inv_delete: "cap_inv fs \<Longrightarrow> cap_inv (snd (delete fs path))"
  by (erule cap_inv_tree_change)
     (auto simp: delete_def Let_def
           split: sum.splits option.splits INode.splits if_splits prod.splits)

lemma list_setitem_length: "list_setitem xs i v = Inr ys \<Longrightarrow> length ys = length xs"
  by (auto simp: list_setitem_def split: if_splits)

lemma write_bytes_blocks:
  "dom (snd (write_bytes bl dbs idx d)) = dom dbs
   \<and> (\<forall>b blk. snd (write_bytes bl dbs idx d) b = Some blk \<longrightarrow>
         (\<exists>blk0. dbs b = Some blk0 \<and> length (data blk) = length (data blk0)))"
proof (induction d arbitrary: dbs idx)
  case Nil
  show ?case by simp
next
  case (Cons x d)
  show ?case
  proof (cases "list_getitem bl (idx div int BLOCK_SIZE)")
    case (Inl e)
    then show ?thesis by simp
  next
    case (Inr b)
    show ?thesis
    proof (cases "dbs b")
      case None
      with Inr show ?thesis by simp
    next
      case (Some blk)
      show ?thesis
      proof (cases "list_setitem (data blk) (idx mod int BLOCK_SIZE) x")
        case (Inl e)
        with Inr Some show ?thesis by simp
      next
        case r: (Inr bytes)
        let ?dbs1 = "dbs(b \<mapsto> blk\<lparr>data := bytes\<rparr>)"
        have w: "write_bytes bl dbs idx (x # d) = write_bytes bl ?dbs1 (idx + 1) d"
          using Inr Some r by simp
        have l: "length bytes = length (data blk)" by (rule list_setitem_length [OF r])
        have d1: "dom ?dbs1 = dom dbs" using Some by auto
        have l1: "\<exists>blk0. dbs c = Some blk0 \<and> length (data blk1) = length (data blk0)"
          if "?dbs1 c = Some blk1" for c blk1
          using that Some l by (cases "c = b") auto
        from Cons.IH [of ?dbs1 "idx + 1"] d1 l1 show ?thesis
          unfolding w by (metis (no_types, lifting))
      qed
    qed
  qed
qed

lemma cap_inv_file_change:
  assumes "cap_inv fs" and "objs fs a = Some (File iid sz bl)"
    and "objs fs' = (objs fs)(a \<mapsto> File iid sz' bl')"
    and "sz' \<le> int (length bl') * int BLOCK_SIZE"
    and "set bl' \<subseteq> dom (data_blocks fs')"
    and "dom (data_blocks fs) \<subseteq> dom (data_blocks fs')"
    and "\<And>b blk. data_blocks fs' b = Some blk \<Longrightarrow> length (data blk) = BLOCK_SIZE"
  shows "cap_inv fs'"
proof (rule cap_invI)
  fix c node assume o: "objs fs' c = Some node"
  show "size_bytes node \<le> int (length (blocks node)) * int BLOCK_SIZE"
  proof (cases "c = a")
    case True
    with o assms(3,4) show ?thesis by auto
  next
    case False
    with o assms(3) have "objs fs c = Some node" by simp
    then show ?thesis by (rule cap_invD(1) [OF assms(1)])
  qed
  show "set (blocks node) \<subseteq> dom (data_blocks fs')"
  proof (cases "c = a")
    case True
    with o assms(3,5) show ?thesis by auto
  next
    case False
    with o assms(3) have "objs fs c = Some node" by simp
    from cap_invD(2) [OF assms(1) this] assms(6) show ?thesis by blast
  qed
next
  fix b blk assume "data_blocks fs' b = Some blk"
  then show "length (data blk) = BLOCK_SIZE" by (rule assms(7))
qed

lemma cap_inv_write_file: "cap_inv fs \<Longrightarrow> cap_inv (snd (write_file fs path d off))"
proof -
  assume inv: "cap_inv fs"
  show ?thesis
  proof (cases "\<exists>a iid sz bl. traverse fs path = Some a \<and> objs fs a = Some (File iid sz bl)")
    case False
    then have "snd (write_file fs path d off) = fs"
      by (auto simp: write_file_def split: option.splits INode.splits)
    with inv show ?thesis by simp
  next
    case True
    then obtain a iid sz bl where t: "traverse fs path = Some a"
      and o: "objs fs a = Some (File iid sz bl)" by blast
    obtain ok bm' bl' dbs' where al:
      "alloc_loop (off + int (length d)) (block_mgr fs) bl (data_blocks fs) = (ok, bm', bl', dbs')"
      by (cases "alloc_loop (off + int (length d)) (block_mgr fs) bl (data_blocks fs)") auto
    from alloc_loop_result [OF al] obtain new where n: "bl' = bl @ new"
      "ok \<longrightarrow> off + int (length d) \<le> int (length bl') * int BLOCK_SIZE"
      "\<And>b. dbs' b = (if b \<in> set new then Some (DataBlock_init b) else data_blocks fs b)"
      by blast
    let ?dbs'' = "snd (write_bytes bl' dbs' off d)"
    let ?fs' = "snd (write_file fs path d off)"
    have dom': "dom dbs' = dom (data_blocks fs) \<union> set new"
      using n(3) by (auto split: if_splits)
    have len': "length (data blk) = BLOCK_SIZE" if "dbs' b = Some blk" for b blk
      using that n(3) [of b] cap_invD(3) [OF inv, of b blk]
      by (auto simp: DataBlock_init_def split: if_splits)
    have dom'': "dom ?dbs'' = dom dbs'" using write_bytes_blocks [of bl' dbs' off d] by blast
    have len'': "length (data blk) = BLOCK_SIZE" if "?dbs'' b = Some blk" for b blk
      using that write_bytes_blocks [of bl' dbs' off d] len' by metis
    have blocks': "set bl' \<subseteq> dom dbs'"
      using n(1) dom' cap_invD(2) [OF inv o] by auto
    have sz: "sz \<le> int (length bl') * int BLOCK_SIZE"
    proof -
      have "int (length bl) * int BLOCK_SIZE \<le> int (length bl') * int BLOCK_SIZE"
        using n(1) by (simp add: mult_right_mono)
      with cap_invD(1) [OF inv o] show ?thesis by simp
    qed
    note w = write_file_File [OF t o al]
    show ?thesis
    proof (cases ok)
      case False
      with w have "objs ?fs' = (objs fs)(a \<mapsto> File iid sz bl')" "data_blocks ?fs' = dbs'"
        by simp_all
      then show ?thesis
        using cap_inv_file_change [OF inv o, of ?fs' sz bl'] sz blocks' dom' len' by auto
    next
      case True
      show ?thesis
      proof (cases "fst (write_bytes bl' dbs' off d)")
        case (Inl e)
        with True w have "objs ?fs' = (objs fs)(a \<mapsto> File iid sz bl')"
          "data_blocks ?fs' = ?dbs''" by simp_all
        then show ?thesis
          using cap_inv_file_change [OF inv o, of ?fs' sz bl'] sz blocks' dom' dom'' len''
          by auto
      next
        case (Inr u)
        with True w have "objs ?fs' = (objs fs)(a \<mapsto> File iid (max sz (off + int (length d))) bl')"
          "data_blocks ?fs' = ?dbs''" by simp_all
        moreover have "max sz (off + int (length d)) \<le> int (length bl') * int BLOCK_SIZE"
          using sz n(2) True by simp
        ultimately show ?thesis
          using cap_inv_file_change [OF inv o, of ?fs' "max sz (off + int (length d))" bl']
            blocks' dom' dom'' len''
          by auto
      qed
    qed
  qed
qed

lemma cap_inv_exec: "cap_inv fs \<Longrightarrow> cap_inv (exec fs c)"
  by (cases c)
     (simp_all add: cap_inv_mkdir cap_inv_create_file cap_inv_write_file cap_inv_delete
        read_def ls_def split: option.splits INode.splits sum.splits)

lemma cap_inv_run: "cap_inv fs \<Longrightarrow> cap_inv (run fs cs)"
  unfolding run_def by (induction cs arbitrary: fs) (simp_all add: cap_inv_exec)

lemma int_div_bounds:
  assumes "0 < (b::int)" and "0 \<le> a" and "a < L * b"
  shows "0 \<le> a div b \<and> a div b < L"
proof -
  have 1: "0 \<le> a div b" using assms(1,2) by (simp add: pos_imp_zdiv_nonneg_iff)
  have m: "a div b * b \<le> a"
    using pos_mod_sign [OF assms(1), of a] div_mult_mod_eq [of a b] by linarith
  have 2: "a div b < L"
  proof (rule ccontr)
    assume "\<not> a div b < L"
    then have "L \<le> a div b" by simp
    then have "L * b \<le> a div b * b" using assms(1) by (simp add: mult_right_mono)
    with m assms(3) show False by linarith
  qed
  from 1 2 show ?thesis ..
qed

lemma cap_inv_cell:
  assumes "cap_inv fs" and "objs fs a = Some (File iid sz bl)"
    and "0 \<le> idx" and "idx < int (length bl) * int BLOCK_SIZE"
  shows "\<exists>blk. list_getitem bl (idx div int BLOCK_SIZE) = Inr (bl ! nat (idx div int BLOCK_SIZE))
       \<and> nat (idx div int BLOCK_SIZE) < length bl
       \<and> data_blocks fs (bl ! nat (idx div int BLOCK_SIZE)) = Some blk
       \<and> list_getitem (data blk) (idx mod int BLOCK_SIZE)
           = Inr (data blk ! nat (idx mod int BLOCK_SIZE))"
proof -
  have bs: "0 < int BLOCK_SIZE" by (simp add: BLOCK_SIZE_def)
  from int_div_bounds [OF bs assms(3,4)]
  have d: "0 \<le> idx div int BLOCK_SIZE" "idx div int BLOCK_SIZE < int (length bl)" by simp_all
  then have g: "list_getitem bl (idx div int BLOCK_SIZE) = Inr (bl ! nat (idx div int BLOCK_SIZE))"
    by (simp add: list_getitem_def)
  from d have n: "nat (idx div int BLOCK_SIZE) < length bl" by simp
  then have "bl ! nat (idx div int BLOCK_SIZE) \<in> set bl" by simp
  with cap_invD(2) [OF assms(1,2)] obtain blk where
    blk: "data_blocks fs (bl ! nat (idx div int BLOCK_SIZE)) = Some blk" by auto
  from cap_invD(3) [OF assms(1) blk] have "length (data blk) = BLOCK_SIZE" .
  with pos_mod_sign [OF bs, of idx] pos_mod_bound [OF bs, of idx]
  have "list_getitem (data blk) (idx mod int BLOCK_SIZE)
           = Inr (data blk ! nat (idx mod int BLOCK_SIZE))"
    by (simp add: list_getitem_def)
  with g n blk show ?thesis by blast
qed

lemmas fs_eval_write = write_file_def alloc_loop.simps allocate_def BLOCK_SIZE_def
  list_getitem_def list_setitem_def DataBlock_init_def upt_rec

lemma fs_w_eval:
  "traverse (run (FileSystem_init 2) [CreateFile ''/f'', Write ''/f'' [1, 2, 3] 0]) ''/f'' = Some 2"
  "objs (run (FileSystem_init 2) [CreateFile ''/f'', Write ''/f'' [1, 2, 3] 0]) 2
     = Some (File 2 3 [1])"
  by (simp_all add: fs_eval fs_eval_write)

text \<open>
  Claim C10 (capacity invariant). The invariant \<open>cap_inv\<close> holds of the constructed file
  system and every public operation preserves it, whatever the operation answers, a
  write that stops in the allocation loop included. Under it every inode has
  \<open>size \<le> len(blocks) * BLOCK_SIZE\<close>, and for a file and an index \<open>0 \<le> idx < size\<close> the
  block index \<open>idx // BLOCK_SIZE\<close> is within the block list, the block id found there
  has a data block, and \<open>idx % BLOCK_SIZE\<close> is within that block's bytes.
\<close>

theorem capacity_invariant:
  "cap_inv (FileSystem_init n)
   \<and> (cap_inv fs \<longrightarrow> cap_inv (exec fs c))
   \<and> (cap_inv fs \<and> objs fs a = Some node \<longrightarrow>
         size_bytes node \<le> int (length (blocks node)) * int BLOCK_SIZE)
   \<and> (cap_inv fs \<and> objs fs a = Some (File iid sz bl) \<and> 0 \<le> idx \<and> idx < sz \<longrightarrow>
        (\<exists>blk. list_getitem bl (idx div int BLOCK_SIZE) = Inr (bl ! nat (idx div int BLOCK_SIZE))
           \<and> nat (idx div int BLOCK_SIZE) < length bl
           \<and> data_blocks fs (bl ! nat (idx div int BLOCK_SIZE)) = Some blk
           \<and> list_getitem (data blk) (idx mod int BLOCK_SIZE)
               = Inr (data blk ! nat (idx mod int BLOCK_SIZE))))"
proof (intro conjI impI)
  show "cap_inv (FileSystem_init n)" by (rule cap_inv_init)
next
  assume "cap_inv fs"
  then show "cap_inv (exec fs c)" by (rule cap_inv_exec)
next
  assume "cap_inv fs \<and> objs fs a = Some node"
  then show "size_bytes node \<le> int (length (blocks node)) * int BLOCK_SIZE"
    using cap_invD(1) by blast
next
  assume h: "cap_inv fs \<and> objs fs a = Some (File iid sz bl) \<and> 0 \<le> idx \<and> idx < sz"
  then have "sz \<le> int (length bl) * int BLOCK_SIZE"
    using cap_invD(1) [of fs a "File iid sz bl"] by simp
  with h have "idx < int (length bl) * int BLOCK_SIZE" by simp
  with h show "\<exists>blk. list_getitem bl (idx div int BLOCK_SIZE)
             = Inr (bl ! nat (idx div int BLOCK_SIZE))
           \<and> nat (idx div int BLOCK_SIZE) < length bl
           \<and> data_blocks fs (bl ! nat (idx div int BLOCK_SIZE)) = Some blk
           \<and> list_getitem (data blk) (idx mod int BLOCK_SIZE)
               = Inr (data blk ! nat (idx mod int BLOCK_SIZE))"
    using cap_inv_cell [of fs a iid sz bl idx] by blast
qed

theorem capacity_invariant_witness:
  "cap_inv (exec (run (FileSystem_init 2) [CreateFile ''/f'', Write ''/f'' [1, 2, 3] 0])
      (Write ''/f'' [4] 5000))
   \<and> (3::int) \<le> int (length [1::nat]) * int BLOCK_SIZE
   \<and> (\<exists>blk. data_blocks (run (FileSystem_init 2) [CreateFile ''/f'', Write ''/f'' [1, 2, 3] 0]) 1
          = Some blk
        \<and> list_getitem (data blk) 2 = Inr (data blk ! 2))"
proof -
  let ?fs = "run (FileSystem_init 2) [CreateFile ''/f'', Write ''/f'' [1, 2, 3] 0]"
  have c: "cap_inv ?fs" by (rule cap_inv_run [OF cap_inv_init])
  note t = capacity_invariant [of 2 ?fs "Write ''/f'' [4] 5000" 2 "File 2 3 [1]" 2 3 "[1]" 2]
  from t c have 1: "cap_inv (exec ?fs (Write ''/f'' [4] 5000))" by blast
  from t c fs_w_eval(2) have 2: "(3::int) \<le> int (length [1::nat]) * int BLOCK_SIZE"
    by simp
  have pre: "cap_inv ?fs \<and> objs ?fs 2 = Some (File 2 3 [1]) \<and> (0::int) \<le> 2 \<and> (2::int) < 3"
    using c fs_w_eval(2) by simp
  have dm: "2 div int BLOCK_SIZE = 0" "2 mod int BLOCK_SIZE = 2"
    by (simp_all add: BLOCK_SIZE_def)
  from t [THEN conjunct2, THEN conjunct2, THEN conjunct2, THEN mp, OF pre]
  obtain blk where "data_blocks ?fs ([1] ! nat (2 div int BLOCK_SIZE)) = Some blk"
    "list_getitem (data blk) (2 mod int BLOCK_SIZE) = Inr (data blk ! nat (2 mod int BLOCK_SIZE))"
    by blast
  then have "data_blocks ?fs 1 = Some blk \<and> list_getitem (data blk) 2 = Inr (data blk ! 2)"
    unfolding dm by simp
  then have 3: "\<exists>blk. data_blocks ?fs 1 = Some blk
        \<and> list_getitem (data blk) 2 = Inr (data blk ! 2)" ..
  from 1 2 3 show ?thesis by blast
qed

lemma read_bytes_ok:
  assumes "cap_inv fs" and "objs fs a = Some (File iid sz bl)"
  shows "0 \<le> idx \<Longrightarrow> idx + int k \<le> int (length bl) * int BLOCK_SIZE
     \<Longrightarrow> \<exists>bs. read_bytes bl (data_blocks fs) idx k = Inr bs \<and> length bs = k"
proof (induction k arbitrary: idx)
  case 0
  show ?case by simp
next
  case (Suc k)
  from Suc.prems have "idx < int (length bl) * int BLOCK_SIZE" by simp
  from cap_inv_cell [OF assms Suc.prems(1) this] obtain blk where
    c: "list_getitem bl (idx div int BLOCK_SIZE) = Inr (bl ! nat (idx div int BLOCK_SIZE))"
       "data_blocks fs (bl ! nat (idx div int BLOCK_SIZE)) = Some blk"
       "list_getitem (data blk) (idx mod int BLOCK_SIZE)
           = Inr (data blk ! nat (idx mod int BLOCK_SIZE))"
    by blast
  from Suc.prems have "0 \<le> idx + 1" "idx + 1 + int k \<le> int (length bl) * int BLOCK_SIZE"
    by simp_all
  from Suc.IH [OF this] obtain bs where
    bs: "read_bytes bl (data_blocks fs) (idx + 1) k = Inr bs" "length bs = k" by blast
  from c bs show ?case by simp
qed

lemma read_not_file:
  assumes "traverse fs path = None
     \<or> (\<exists>a. traverse fs path = Some a \<and> (\<forall>iid fsz bl. objs fs a \<noteq> Some (File iid fsz bl)))"
  shows "read fs path sz off = (Inr None, fs)"
  using assms by (auto simp: read_def split: option.splits INode.splits)

lemma read_file:
  assumes "cap_inv fs" and "traverse fs path = Some a" and "objs fs a = Some (File iid fsz bl)"
    and "0 \<le> sz" and "0 \<le> off"
  shows "\<exists>bs. read fs path sz off = (Inr (Some bs), fs)
           \<and> int (length bs) = (if fsz \<le> off then 0 else min sz (fsz - off))"
proof (cases "fsz \<le> off")
  case True
  with assms(2,3) show ?thesis by (simp add: read_def)
next
  case False
  let ?k = "nat (min sz (fsz - off))"
  have k: "int ?k = min sz (fsz - off)" using assms(4) False by simp
  have "off + int ?k \<le> fsz" using k by simp
  also have "fsz \<le> int (length bl) * int BLOCK_SIZE"
    using cap_invD(1) [OF assms(1,3)] by simp
  finally have "off + int ?k \<le> int (length bl) * int BLOCK_SIZE" .
  from read_bytes_ok [OF assms(1,3) assms(5) this] obtain bs where
    bs: "read_bytes bl (data_blocks fs) off ?k = Inr bs" "length bs = ?k" by blast
  from assms(2,3) False bs(1) have "read fs path sz off = (Inr (Some bs), fs)"
    by (simp add: read_def)
  moreover have "int (length bs) = (if fsz \<le> off then 0 else min sz (fsz - off))"
    using bs(2) k False by simp
  ultimately show ?thesis by blast
qed

text \<open>
  Claim C2 (result of a read). After any run of operations on the constructed file
  system, for a requested size and an offset that are not negative: \<open>read\<close> leaves the
  state as it was, so it allocates nothing; when the path resolves to a file it answers
  bytes, none when the offset is at or beyond the file's size, and otherwise
  \<open>min(size, file.size - offset)\<close> of them; when the path does not resolve, or resolves
  to something that is no file, it answers None.
\<close>

theorem read_result:
  assumes "fs = run (FileSystem_init n) cs" and "0 \<le> sz" and "0 \<le> off"
  shows "snd (read fs path sz off) = fs
     \<and> (traverse fs path = Some a \<and> objs fs a = Some (File iid fsz bl) \<longrightarrow>
          (\<exists>bs. fst (read fs path sz off) = Inr (Some bs)
             \<and> (fsz \<le> off \<longrightarrow> bs = [])
             \<and> (off < fsz \<longrightarrow> int (length bs) = min sz (fsz - off))))
     \<and> (traverse fs path = None
          \<or> (\<exists>a. traverse fs path = Some a \<and> (\<forall>iid fsz bl. objs fs a \<noteq> Some (File iid fsz bl)))
        \<longrightarrow> fst (read fs path sz off) = Inr None)"
proof -
  have inv: "cap_inv fs" unfolding assms(1) by (rule cap_inv_run [OF cap_inv_init])
  have 1: "snd (read fs path sz off) = fs"
    by (simp add: read_def split: option.splits INode.splits sum.splits)
  have 2: "\<exists>bs. fst (read fs path sz off) = Inr (Some bs)
             \<and> (fsz \<le> off \<longrightarrow> bs = [])
             \<and> (off < fsz \<longrightarrow> int (length bs) = min sz (fsz - off))"
    if h: "traverse fs path = Some a \<and> objs fs a = Some (File iid fsz bl)"
  proof -
    from read_file [OF inv _ _ assms(2,3), of path a iid fsz bl] h obtain bs where
      "read fs path sz off = (Inr (Some bs), fs)"
      "int (length bs) = (if fsz \<le> off then 0 else min sz (fsz - off))" by blast
    then have "fst (read fs path sz off) = Inr (Some bs) \<and> (fsz \<le> off \<longrightarrow> bs = [])
             \<and> (off < fsz \<longrightarrow> int (length bs) = min sz (fsz - off))"
      by (auto split: if_splits)
    then show ?thesis ..
  qed
  have 3: "fst (read fs path sz off) = Inr None"
    if "traverse fs path = None
          \<or> (\<exists>a. traverse fs path = Some a \<and> (\<forall>iid fsz bl. objs fs a \<noteq> Some (File iid fsz bl)))"
    using read_not_file [OF that] by simp
  from 1 2 3 show ?thesis by blast
qed

theorem read_result_witness:
  "snd (read (run (FileSystem_init 2) [CreateFile ''/f'', Write ''/f'' [1, 2, 3] 0]) ''/f'' 5 1)
     = run (FileSystem_init 2) [CreateFile ''/f'', Write ''/f'' [1, 2, 3] 0]
   \<and> (\<exists>bs. fst (read (run (FileSystem_init 2) [CreateFile ''/f'', Write ''/f'' [1, 2, 3] 0])
               ''/f'' 5 1) = Inr (Some bs) \<and> int (length bs) = 2)"
proof -
  let ?fs = "run (FileSystem_init 2) [CreateFile ''/f'', Write ''/f'' [1, 2, 3] 0]"
  have h: "?fs = run (FileSystem_init 2) [CreateFile ''/f'', Write ''/f'' [1, 2, 3] 0]"
    "(0::int) \<le> 5" "(0::int) \<le> 1" by simp_all
  note t = read_result [OF h, of "''/f''" 2 2 3 "[1]"]
  from t have 1: "snd (read ?fs ''/f'' 5 1) = ?fs" by (rule conjunct1)
  from t [THEN conjunct2, THEN conjunct1, THEN mp, OF conjI [OF fs_w_eval(1) fs_w_eval(2)]]
  obtain bs where "fst (read ?fs ''/f'' 5 1) = Inr (Some bs)"
    "(1::int) < 3 \<longrightarrow> int (length bs) = min 5 (3 - 1)" by blast
  then have "fst (read ?fs ''/f'' 5 1) = Inr (Some bs) \<and> int (length bs) = 2" by simp
  then have 2: "\<exists>bs. fst (read ?fs ''/f'' 5 1) = Inr (Some bs) \<and> int (length bs) = 2" ..
  from 1 2 show ?thesis ..
qed

section \<open>The tree invariant\<close>

lemma tree_invD:
  assumes "tree_inv fs"
  shows "dir_entries fs (root fs) \<noteq> None"
    and "objs fs a = Some node \<Longrightarrow> inode_id node = a \<and> root fs \<le> a \<and> a < next_inode_id fs"
    and "edge fs p name c \<Longrightarrow> p < c \<and> c \<in> dom (objs fs)"
    and "dir_entries fs p = Some ents \<Longrightarrow> distinct (map fst ents)"
    and "edge fs p name c \<Longrightarrow> edge fs p' name' c \<Longrightarrow> p' = p \<and> name' = name"
    and "inodes fs k = Some v \<Longrightarrow> v = k \<and> k \<in> dom (objs fs)"
    and "root fs \<in> dom (inodes fs)"
    and "p \<in> dom (inodes fs) \<Longrightarrow> edge fs p name c \<Longrightarrow> c \<in> dom (inodes fs)"
  using assms unfolding tree_inv_def by blast+

lemma tree_invI:
  assumes "dir_entries fs (root fs) \<noteq> None"
    and "\<And>a node. objs fs a = Some node \<Longrightarrow>
           inode_id node = a \<and> root fs \<le> a \<and> a < next_inode_id fs"
    and "\<And>p name c. edge fs p name c \<Longrightarrow> p < c \<and> c \<in> dom (objs fs)"
    and "\<And>p ents. dir_entries fs p = Some ents \<Longrightarrow> distinct (map fst ents)"
    and "\<And>p name c p' name'. edge fs p name c \<Longrightarrow> edge fs p' name' c \<Longrightarrow> p' = p \<and> name' = name"
    and "\<And>k v. inodes fs k = Some v \<Longrightarrow> v = k \<and> k \<in> dom (objs fs)"
    and "root fs \<in> dom (inodes fs)"
    and "\<And>p name c. p \<in> dom (inodes fs) \<Longrightarrow> edge fs p name c \<Longrightarrow> c \<in> dom (inodes fs)"
  shows "tree_inv fs"
  unfolding tree_inv_def using assms by blast

lemma tree_inv_init: "tree_inv (FileSystem_init n)"
  by (rule tree_invI)
     (auto simp: FileSystem_init_def alloc_inode_id_def Directory_init_def dir_entries_def
        edge_def split: if_splits)

lemma edge_map_of:
  assumes "tree_inv fs" and "dir_entries fs p = Some ents"
  shows "(map_of ents name = Some c) = edge fs p name c"
  using tree_invD(4) [OF assms] assms(2) by (auto simp: edge_def)

lemma walks_step:
  assumes "tree_inv fs"
  shows "walks fs a (name # names) z = (\<exists>c. edge fs a name c \<and> walks fs c names z)"
proof
  assume "walks fs a (name # names) z"
  then obtain i s b ents c where "objs fs a = Some (Directory i s b ents)"
    "map_of ents name = Some c" "walks fs c names z"
    by (cases rule: walks.cases) auto
  moreover from this have "dir_entries fs a = Some ents" by (simp add: dir_entries_def)
  ultimately show "\<exists>c. edge fs a name c \<and> walks fs c names z"
    using edge_map_of [OF assms] by blast
next
  assume "\<exists>c. edge fs a name c \<and> walks fs c names z"
  then obtain c ents where e: "dir_entries fs a = Some ents" "(name, c) \<in> set ents"
    and w: "walks fs c names z" by (auto simp: edge_def)
  from e(1) obtain i s b where o: "objs fs a = Some (Directory i s b ents)"
    by (auto simp: dir_entries_Some)
  from e have "edge fs a name c" by (auto simp: edge_def)
  then have m: "map_of ents name = Some c" using edge_map_of [OF assms e(1)] by simp
  from o m w show "walks fs a (name # names) z" by (rule walks_Cons)
qed

lemma walks_registered:
  assumes "tree_inv fs"
  shows "walks fs a names z \<Longrightarrow> a \<in> dom (inodes fs) \<Longrightarrow> z \<in> dom (inodes fs)"
proof (induction names arbitrary: a)
  case Nil
  then show ?case by (auto elim: walks.cases)
next
  case (Cons name names)
  from Cons.prems(1) obtain c where "edge fs a name c" "walks fs c names z"
    using walks_step [OF assms] by blast
  with Cons.IH [of c] tree_invD(8) [OF assms Cons.prems(2)] show ?case by blast
qed

lemma traverse_registered:
  assumes "tree_inv fs" and "traverse fs path = Some a"
  shows "a \<in> dom (inodes fs)"
proof -
  from assms(2) have "walks fs (root fs) (path_parts path) a"
    unfolding traverse_def by (rule traverse_from_walks)
  then show ?thesis by (rule walks_registered [OF assms(1) _ tree_invD(7) [OF assms(1)]])
qed

lemma split_parent_registered:
  assumes "tree_inv fs" and "split_parent fs path = Inr (Some p, name)"
  shows "p \<in> dom (inodes fs)"
proof -
  from assms(2) obtain pp where "traverse fs pp = Some p"
    by (auto simp: split_parent_def split: sum.splits prod.splits)
  then show ?thesis by (rule traverse_registered [OF assms(1)])
qed

lemma mkdir_result:
  "(snd (mkdir fs path) = fs \<and> fst (mkdir fs path) \<noteq> Inr True)
   \<or> (\<exists>p name. split_parent fs path = Inr (Some p, name) \<and> fst (mkdir fs path) = Inr True
         \<and> entry_added fs (snd (mkdir fs path)) p name (Directory_init (next_inode_id fs)))"
  by (auto simp: mkdir_def entry_added_def alloc_inode_id_def Let_def
      split: sum.splits option.splits INode.splits)

lemma create_file_result:
  "(snd (create_file fs path) = fs \<and> fst (create_file fs path) \<noteq> Inr True)
   \<or> (\<exists>p name. split_parent fs path = Inr (Some p, name) \<and> fst (create_file fs path) = Inr True
         \<and> entry_added fs (snd (create_file fs path)) p name (File_init (next_inode_id fs)))"
  by (auto simp: create_file_def entry_added_def alloc_inode_id_def Let_def
      split: sum.splits option.splits INode.splits)

lemma foldl_free: "free_blocks (foldl free bm bs) = free_blocks bm @ bs"
  by (induction bs arbitrary: bm) (simp_all add: free_def)

lemma delete_result:
  assumes "tree_inv fs"
  shows "(snd (delete fs path) = fs \<and> fst (delete fs path) \<noteq> Inr True)
   \<or> (\<exists>p name c node. split_parent fs path = Inr (Some p, name) \<and> fst (delete fs path) = Inr True
         \<and> entry_removed fs (snd (delete fs path)) p name c node)"
proof (cases "\<exists>p name pid psz pbl ents c. split_parent fs path = Inr (Some p, name)
      \<and> objs fs p = Some (Directory pid psz pbl ents) \<and> map_of ents name = Some c")
  case False
  then have "snd (delete fs path) = fs \<and> fst (delete fs path) \<noteq> Inr True"
    by (auto simp: delete_def split: sum.splits option.splits INode.splits)
  then show ?thesis ..
next
  case True
  then obtain p name pid psz pbl ents c where sp: "split_parent fs path = Inr (Some p, name)"
    and p: "objs fs p = Some (Directory pid psz pbl ents)" and m: "map_of ents name = Some c"
    by blast
  from p have de: "dir_entries fs p = Some ents" by (simp add: dir_entries_def)
  from m have e: "edge fs p name c" using edge_map_of [OF assms de] by simp
  from tree_invD(3) [OF assms e] obtain node where c: "p \<noteq> c" "objs fs c = Some node" by auto
  from tree_invD(2) [OF assms c(2)] have id: "inode_id node = c" by simp
  have "c \<in> dom (inodes fs)"
    by (rule tree_invD(8) [OF assms split_parent_registered [OF assms sp] e])
  with sp p m c id have "fst (delete fs path) = Inr True
      \<and> entry_removed fs (snd (delete fs path)) p name c node"
    by (auto simp: delete_def entry_removed_def Let_def)
  with sp show ?thesis by blast
qed

lemma dir_entries_dom: "dir_entries fs a \<noteq> None \<Longrightarrow> a \<in> dom (objs fs)"
  by (cases "objs fs a") (auto simp: dir_entries_def)

lemma entry_added_fields:
  assumes "entry_added fs fs' p name node"
  obtains pid psz pbl ents where
    "objs fs p = Some (Directory pid psz pbl ents)" "name \<notin> fst ` set ents"
    "objs fs' = (objs fs)(next_inode_id fs \<mapsto> node,
                   p \<mapsto> Directory pid psz pbl (ents @ [(name, next_inode_id fs)]))"
    "inodes fs' = (inodes fs)(next_inode_id fs \<mapsto> next_inode_id fs)"
    "next_inode_id fs' = next_inode_id fs + 1" "root fs' = root fs"
    "block_mgr fs' = block_mgr fs" "data_blocks fs' = data_blocks fs"
  using assms unfolding entry_added_def by auto

lemma entry_removed_fields:
  assumes "entry_removed fs fs' p name c node"
  obtains pid psz pbl ents where
    "objs fs p = Some (Directory pid psz pbl ents)" "map_of ents name = Some c"
    "objs fs c = Some node"
    "objs fs' = (objs fs)(p \<mapsto> Directory pid psz pbl (filter (\<lambda>e. fst e \<noteq> name) ents))"
    "free_blocks (block_mgr fs') = (if is_dir node then free_blocks (block_mgr fs)
                                   else free_blocks (block_mgr fs) @ blocks node)"
    "inodes fs' = (inodes fs)(c := None)"
    "next_inode_id fs' = next_inode_id fs" "root fs' = root fs"
    "data_blocks fs' = data_blocks fs"
  using assms unfolding entry_removed_def by (auto simp: foldl_free)

lemma added_edge:
  assumes inv: "tree_inv fs" and add: "entry_added fs fs' p name node"
    and node: "node = File_init (next_inode_id fs) \<or> node = Directory_init (next_inode_id fs)"
  shows "edge fs' q nm c = (edge fs q nm c \<or> (q = p \<and> nm = name \<and> c = next_inode_id fs))"
    and "next_inode_id fs \<notin> dom (objs fs)" and "p < next_inode_id fs"
    and "\<exists>ents. dir_entries fs p = Some ents \<and> name \<notin> fst ` set ents
           \<and> dir_entries fs' p = Some (ents @ [(name, next_inode_id fs)])"
    and "q \<noteq> p \<Longrightarrow> q \<noteq> next_inode_id fs \<Longrightarrow> dir_entries fs' q = dir_entries fs q"
    and "dir_entries fs' (next_inode_id fs) = None \<or> dir_entries fs' (next_inode_id fs) = Some []"
proof -
  from add obtain pid psz pbl ents where
    p: "objs fs p = Some (Directory pid psz pbl ents)" and nm: "name \<notin> fst ` set ents"
    and o: "objs fs' = (objs fs)(next_inode_id fs \<mapsto> node,
                   p \<mapsto> Directory pid psz pbl (ents @ [(name, next_inode_id fs)]))"
    by (rule entry_added_fields)
  let ?i = "next_inode_id fs"
  show fresh: "?i \<notin> dom (objs fs)" using tree_invD(2) [OF inv] by fastforce
  show lt: "p < ?i" using tree_invD(2) [OF inv p] by simp
  have dp: "dir_entries fs p = Some ents" using p by (simp add: dir_entries_def)
  have dp': "dir_entries fs' p = Some (ents @ [(name, ?i)])" using o by (simp add: dir_entries_def)
  from dp dp' nm show "\<exists>ents. dir_entries fs p = Some ents \<and> name \<notin> fst ` set ents
           \<and> dir_entries fs' p = Some (ents @ [(name, next_inode_id fs)])" by blast
  show other: "dir_entries fs' q = dir_entries fs q" if "q \<noteq> p" "q \<noteq> ?i" for q
    using that o by (simp add: dir_entries_def)
  show new: "dir_entries fs' ?i = None \<or> dir_entries fs' ?i = Some []"
    using node o lt by (auto simp: dir_entries_def File_init_def Directory_init_def)
  have old_i: "dir_entries fs ?i = None" using fresh dir_entries_dom [of fs ?i] by blast
  show "edge fs' q nm c = (edge fs q nm c \<or> (q = p \<and> nm = name \<and> c = ?i))"
  proof (cases "q = p")
    case True
    with dp dp' show ?thesis by (auto simp: edge_def)
  next
    case False
    show ?thesis
    proof (cases "q = ?i")
      case True
      with new old_i False show ?thesis by (auto simp: edge_def)
    next
      case f: False
      with False other [of q] show ?thesis by (simp add: edge_def)
    qed
  qed
qed

lemma tree_inv_added:
  assumes inv: "tree_inv fs" and add: "entry_added fs fs' p name node"
    and node: "node = File_init (next_inode_id fs) \<or> node = Directory_init (next_inode_id fs)"
  shows "tree_inv fs'"
proof (rule tree_invI)
  let ?i = "next_inode_id fs"
  note e = added_edge [OF inv add node]
  from add obtain pid psz pbl ents where
    p: "objs fs p = Some (Directory pid psz pbl ents)" and nm: "name \<notin> fst ` set ents"
    and o: "objs fs' = (objs fs)(?i \<mapsto> node, p \<mapsto> Directory pid psz pbl (ents @ [(name, ?i)]))"
    and i: "inodes fs' = (inodes fs)(?i \<mapsto> ?i)"
    and n: "next_inode_id fs' = ?i + 1" and r: "root fs' = root fs"
    by (rule entry_added_fields)
  have dom: "dom (objs fs') = insert ?i (dom (objs fs))" using o p by auto
  have idn: "inode_id node = ?i" using node by (auto simp: File_init_def Directory_init_def)
  show "dir_entries fs' (root fs') \<noteq> None"
  proof (cases "root fs = p")
    case True
    with e(4) r show ?thesis by auto
  next
    case False
    have "root fs \<in> dom (objs fs)" using tree_invD(1) [OF inv] by (rule dir_entries_dom)
    with e(2) have "root fs \<noteq> ?i" by auto
    with False e(5) [of "root fs"] r tree_invD(1) [OF inv] show ?thesis by simp
  qed
  show "inode_id nd = a \<and> root fs' \<le> a \<and> a < next_inode_id fs'" if "objs fs' a = Some nd" for a nd
  proof -
    from that o have "(a = p \<and> nd = Directory pid psz pbl (ents @ [(name, ?i)]))
      \<or> (a = ?i \<and> nd = node) \<or> objs fs a = Some nd"
      by (auto split: if_splits)
    then consider "a = p" "nd = Directory pid psz pbl (ents @ [(name, ?i)])"
      | "a = ?i" "nd = node" | "objs fs a = Some nd" by blast
    then show ?thesis
    proof cases
      case 1
      with tree_invD(2) [OF inv p] r n show ?thesis by simp
    next
      case 2
      with idn r n e(3) tree_invD(2) [OF inv p] show ?thesis by simp
    next
      case 3
      with tree_invD(2) [OF inv 3] r n show ?thesis by simp
    qed
  qed
  show "q < c \<and> c \<in> dom (objs fs')" if "edge fs' q nm c" for q nm c
    using that e(1) [of q nm c] e(3) tree_invD(3) [OF inv, of q nm c] dom by auto
  show "distinct (map fst es)" if "dir_entries fs' q = Some es" for q es
  proof (cases "q = p")
    case True
    with that e(4) obtain ents0 where "dir_entries fs p = Some ents0" "name \<notin> fst ` set ents0"
      "es = ents0 @ [(name, ?i)]" by auto
    with tree_invD(4) [OF inv, of p ents0] show ?thesis by auto
  next
    case False
    show ?thesis
    proof (cases "q = ?i")
      case True
      with that e(6) show ?thesis by auto
    next
      case f: False
      with False e(5) [of q] that tree_invD(4) [OF inv, of q es] show ?thesis by simp
    qed
  qed
  show "q' = q \<and> nm' = nm" if "edge fs' q nm c" "edge fs' q' nm' c" for q nm c q' nm'
  proof -
    have no: "\<not> edge fs x y ?i" for x y using tree_invD(3) [OF inv, of x y ?i] e(2) by auto
    from that e(1) [of q nm c] e(1) [of q' nm' c] no tree_invD(5) [OF inv, of q nm c q' nm']
    show ?thesis by auto
  qed
  show "v = k \<and> k \<in> dom (objs fs')" if "inodes fs' k = Some v" for k v
    using that i dom tree_invD(6) [OF inv, of k v] by (auto split: if_splits)
  show "root fs' \<in> dom (inodes fs')" using tree_invD(7) [OF inv] i r by auto
  show "c \<in> dom (inodes fs')" if "q \<in> dom (inodes fs')" "edge fs' q nm c" for q nm c
  proof -
    from that(2) e(1) [of q nm c] consider "edge fs q nm c" | "c = ?i" by auto
    then show ?thesis
    proof cases
      case 1
      then have "dir_entries fs q \<noteq> None" by (auto simp: edge_def)
      then have "q \<in> dom (objs fs)" by (rule dir_entries_dom)
      with e(2) have "q \<noteq> ?i" by auto
      with that(1) i have "q \<in> dom (inodes fs)" by auto
      from tree_invD(8) [OF inv this 1] i show ?thesis by auto
    next
      case 2
      with i show ?thesis by simp
    qed
  qed
qed

lemma removed_edge:
  assumes inv: "tree_inv fs" and rem: "entry_removed fs fs' p name c node"
  shows "edge fs p name c" and "p < c"
    and "edge fs' q nm c' = (edge fs q nm c' \<and> \<not> (q = p \<and> nm = name))"
    and "edge fs' q nm c' \<Longrightarrow> c' \<noteq> c"
    and "dir_entries fs' q \<noteq> None = (dir_entries fs q \<noteq> None)"
    and "\<exists>ents. dir_entries fs p = Some ents
           \<and> dir_entries fs' p = Some (filter (\<lambda>e. fst e \<noteq> name) ents)"
    and "q \<noteq> p \<Longrightarrow> dir_entries fs' q = dir_entries fs q"
proof -
  from rem obtain pid psz pbl ents where
    p: "objs fs p = Some (Directory pid psz pbl ents)" and m: "map_of ents name = Some c"
    and o: "objs fs' = (objs fs)(p \<mapsto> Directory pid psz pbl (filter (\<lambda>e. fst e \<noteq> name) ents))"
    by (rule entry_removed_fields)
  have dp: "dir_entries fs p = Some ents" using p by (simp add: dir_entries_def)
  have dp': "dir_entries fs' p = Some (filter (\<lambda>e. fst e \<noteq> name) ents)"
    using o by (simp add: dir_entries_def)
  show other: "dir_entries fs' q = dir_entries fs q" if "q \<noteq> p" for q
    using that o by (simp add: dir_entries_def)
  from dp dp' show "\<exists>ents. dir_entries fs p = Some ents
           \<and> dir_entries fs' p = Some (filter (\<lambda>e. fst e \<noteq> name) ents)" by blast
  show e: "edge fs p name c" using edge_map_of [OF inv dp] m by simp
  show "p < c" using tree_invD(3) [OF inv e] by simp
  show eq: "edge fs' q nm c' = (edge fs q nm c' \<and> \<not> (q = p \<and> nm = name))" for q nm c'
  proof (cases "q = p")
    case True
    with dp dp' show ?thesis by (auto simp: edge_def)
  next
    case False
    with other [of q] show ?thesis by (simp add: edge_def)
  qed
  show "c' \<noteq> c" if "edge fs' q nm c'"
  proof
    assume "c' = c"
    with that eq [of q nm c'] have "edge fs q nm c" "\<not> (q = p \<and> nm = name)" by simp_all
    with tree_invD(5) [OF inv e, of q nm] show False by simp
  qed
  show "dir_entries fs' q \<noteq> None = (dir_entries fs q \<noteq> None)"
    using dp dp' other [of q] by (cases "q = p") simp_all
qed

lemma tree_inv_removed:
  assumes inv: "tree_inv fs" and rem: "entry_removed fs fs' p name c node"
  shows "tree_inv fs'"
proof (rule tree_invI)
  note e = removed_edge [OF inv rem]
  from rem obtain pid psz pbl ents where
    p: "objs fs p = Some (Directory pid psz pbl ents)"
    and o: "objs fs' = (objs fs)(p \<mapsto> Directory pid psz pbl (filter (\<lambda>e. fst e \<noteq> name) ents))"
    and i: "inodes fs' = (inodes fs)(c := None)"
    and n: "next_inode_id fs' = next_inode_id fs" and r: "root fs' = root fs"
    by (rule entry_removed_fields)
  have dom: "dom (objs fs') = dom (objs fs)" using o p by auto
  show "dir_entries fs' (root fs') \<noteq> None"
    using e(5) [of "root fs"] tree_invD(1) [OF inv] r by simp
  show "inode_id nd = a \<and> root fs' \<le> a \<and> a < next_inode_id fs'" if "objs fs' a = Some nd" for a nd
  proof (cases "a = p")
    case True
    with that o have "nd = Directory pid psz pbl (filter (\<lambda>e. fst e \<noteq> name) ents)" by simp
    with True tree_invD(2) [OF inv p] r n show ?thesis by simp
  next
    case False
    with that o have "objs fs a = Some nd" by simp
    from tree_invD(2) [OF inv this] r n show ?thesis by simp
  qed
  show "q < c' \<and> c' \<in> dom (objs fs')" if "edge fs' q nm c'" for q nm c'
    using that e(3) [of q nm c'] tree_invD(3) [OF inv, of q nm c'] dom by simp
  show "distinct (map fst es)" if "dir_entries fs' q = Some es" for q es
  proof (cases "q = p")
    case True
    with that e(6) obtain ents0 where "dir_entries fs p = Some ents0"
      "es = filter (\<lambda>e. fst e \<noteq> name) ents0" by auto
    with tree_invD(4) [OF inv, of p ents0] show ?thesis by (simp add: distinct_map_filter)
  next
    case False
    with e(7) [of q] that tree_invD(4) [OF inv, of q es] show ?thesis by simp
  qed
  show "q' = q \<and> nm' = nm" if "edge fs' q nm c'" "edge fs' q' nm' c'" for q nm c' q' nm'
    using that e(3) [of q nm c'] e(3) [of q' nm' c'] tree_invD(5) [OF inv, of q nm c' q' nm']
    by simp
  show "v = k \<and> k \<in> dom (objs fs')" if "inodes fs' k = Some v" for k v
    using that i dom tree_invD(6) [OF inv, of k v] by (auto split: if_splits)
  show "root fs' \<in> dom (inodes fs')"
  proof -
    have "root fs \<le> p" using tree_invD(2) [OF inv p] by simp
    with e(2) have "root fs \<noteq> c" by simp
    with tree_invD(7) [OF inv] i r show ?thesis by auto
  qed
  show "c' \<in> dom (inodes fs')" if "q \<in> dom (inodes fs')" "edge fs' q nm c'" for q nm c'
  proof -
    from that(1) i have q: "q \<in> dom (inodes fs)" by (auto split: if_splits)
    from that(2) e(3) [of q nm c'] have "edge fs q nm c'" by simp
    from tree_invD(8) [OF inv q this] e(4) [OF that(2)] i show ?thesis by auto
  qed
qed

lemma tree_inv_file_change:
  assumes inv: "tree_inv fs" and a: "objs fs a = Some (File iid sz bl)"
    and o: "objs fs' = (objs fs)(a \<mapsto> File iid sz' bl')"
    and i: "inodes fs' = inodes fs" and n: "next_inode_id fs' = next_inode_id fs"
    and r: "root fs' = root fs"
  shows "tree_inv fs'"
proof (rule tree_invI)
  have d: "dir_entries fs' x = dir_entries fs x" for x
    by (rule dir_entries_File_upd [OF a o])
  then have e: "edge fs' q nm c = edge fs q nm c" for q nm c by (simp add: edge_def)
  have dom: "dom (objs fs') = dom (objs fs)" using o a by auto
  show "dir_entries fs' (root fs') \<noteq> None" using d r tree_invD(1) [OF inv] by simp
  show "inode_id nd = x \<and> root fs' \<le> x \<and> x < next_inode_id fs'" if "objs fs' x = Some nd" for x nd
  proof (cases "x = a")
    case True
    with that o have "nd = File iid sz' bl'" by simp
    with True tree_invD(2) [OF inv a] r n show ?thesis by simp
  next
    case False
    with that o have "objs fs x = Some nd" by simp
    from tree_invD(2) [OF inv this] r n show ?thesis by simp
  qed
  show "q < c \<and> c \<in> dom (objs fs')" if "edge fs' q nm c" for q nm c
    using that e tree_invD(3) [OF inv, of q nm c] dom by simp
  show "distinct (map fst es)" if "dir_entries fs' q = Some es" for q es
    using that d tree_invD(4) [OF inv, of q es] by simp
  show "q' = q \<and> nm' = nm" if "edge fs' q nm c" "edge fs' q' nm' c" for q nm c q' nm'
    using that e tree_invD(5) [OF inv, of q nm c q' nm'] by simp
  show "v = k \<and> k \<in> dom (objs fs')" if "inodes fs' k = Some v" for k v
    using that i dom tree_invD(6) [OF inv, of k v] by simp
  show "root fs' \<in> dom (inodes fs')" using tree_invD(7) [OF inv] i r by simp
  show "c \<in> dom (inodes fs')" if "q \<in> dom (inodes fs')" "edge fs' q nm c" for q nm c
    using that e i tree_invD(8) [OF inv, of q nm c] by simp
qed

lemma write_file_result:
  "snd (write_file fs path d off) = fs
   \<or> (\<exists>a iid sz bl sz' bl'. traverse fs path = Some a \<and> objs fs a = Some (File iid sz bl)
         \<and> objs (snd (write_file fs path d off)) = (objs fs)(a \<mapsto> File iid sz' bl')
         \<and> inodes (snd (write_file fs path d off)) = inodes fs
         \<and> next_inode_id (snd (write_file fs path d off)) = next_inode_id fs
         \<and> root (snd (write_file fs path d off)) = root fs)"
proof (cases "\<exists>a iid sz bl. traverse fs path = Some a \<and> objs fs a = Some (File iid sz bl)")
  case False
  then have "snd (write_file fs path d off) = fs"
    by (auto simp: write_file_def split: option.splits INode.splits)
  then show ?thesis ..
next
  case True
  then obtain a iid sz bl where t: "traverse fs path = Some a"
    and o: "objs fs a = Some (File iid sz bl)" by blast
  obtain ok bm' bl' dbs' where al:
    "alloc_loop (off + int (length d)) (block_mgr fs) bl (data_blocks fs) = (ok, bm', bl', dbs')"
    by (cases "alloc_loop (off + int (length d)) (block_mgr fs) bl (data_blocks fs)") auto
  note w = write_file_File [OF t o al]
  let ?fs' = "snd (write_file fs path d off)"
  have "\<exists>sz'. objs ?fs' = (objs fs)(a \<mapsto> File iid sz' bl') \<and> inodes ?fs' = inodes fs
         \<and> next_inode_id ?fs' = next_inode_id fs \<and> root ?fs' = root fs"
  proof (cases ok)
    case False
    with w have "objs ?fs' = (objs fs)(a \<mapsto> File iid sz bl') \<and> inodes ?fs' = inodes fs
         \<and> next_inode_id ?fs' = next_inode_id fs \<and> root ?fs' = root fs" by simp
    then show ?thesis ..
  next
    case True
    show ?thesis
    proof (cases "fst (write_bytes bl' dbs' off d)")
      case (Inl e)
      with True w have "objs ?fs' = (objs fs)(a \<mapsto> File iid sz bl') \<and> inodes ?fs' = inodes fs
         \<and> next_inode_id ?fs' = next_inode_id fs \<and> root ?fs' = root fs" by simp
      then show ?thesis ..
    next
      case (Inr u)
      with True w have "objs ?fs' = (objs fs)(a \<mapsto> File iid (max sz (off + int (length d))) bl')
         \<and> inodes ?fs' = inodes fs
         \<and> next_inode_id ?fs' = next_inode_id fs \<and> root ?fs' = root fs" by simp
      then show ?thesis ..
    qed
  qed
  with t o show ?thesis by blast
qed

lemma tree_inv_exec: "tree_inv fs \<Longrightarrow> tree_inv (exec fs c)"
proof (cases c)
  case (Mkdir path)
  assume inv: "tree_inv fs"
  from mkdir_result [of fs path] inv Mkdir show ?thesis
    by (auto intro: tree_inv_added)
next
  case (CreateFile path)
  assume inv: "tree_inv fs"
  from create_file_result [of fs path] inv CreateFile show ?thesis
    by (auto intro: tree_inv_added)
next
  case (Write path d off)
  assume inv: "tree_inv fs"
  from write_file_result [of fs path d off] inv Write show ?thesis
    by (auto intro: tree_inv_file_change)
next
  case (Read path n off)
  assume "tree_inv fs"
  with Read show ?thesis
    by (simp add: read_def split: option.splits INode.splits sum.splits)
next
  case (Ls path)
  assume "tree_inv fs"
  with Ls show ?thesis by (simp add: ls_def split: option.splits INode.splits)
next
  case (Delete path)
  assume inv: "tree_inv fs"
  from delete_result [OF inv, of path] inv Delete show ?thesis
    by (auto intro: tree_inv_removed)
qed

lemma tree_inv_run: "tree_inv fs \<Longrightarrow> tree_inv (run fs cs)"
  unfolding run_def by (induction cs arbitrary: fs) (simp_all add: tree_inv_exec)

section \<open>Chains of names from the root\<close>

lemma traverse_from_append:
  "traverse_from fs a (xs @ ys) =
     (case traverse_from fs a xs of None \<Rightarrow> None | Some m \<Rightarrow> traverse_from fs m ys)"
  by (induction xs arbitrary: a) (auto split: option.splits INode.splits)

lemma walks_iff: "walks fs a ns z = (traverse_from fs a ns = Some z)"
  using walks_traverse_from traverse_from_walks by blast

lemma walks_append:
  "walks fs a (xs @ ys) z = (\<exists>m. walks fs a xs m \<and> walks fs m ys z)"
  by (auto simp: walks_iff traverse_from_append split: option.splits)

lemma walks_Nil_iff: "walks fs a [] z = (z = a)"
  by (simp add: walks_iff eq_commute)

lemma walks_single:
  assumes "tree_inv fs"
  shows "walks fs a [n] z = edge fs a n z"
  using walks_step [OF assms, of a n "[]" z] by (simp add: walks_Nil_iff)

lemma walks_snoc:
  assumes "tree_inv fs"
  shows "walks fs a (ns @ [n]) z = (\<exists>m. walks fs a ns m \<and> edge fs m n z)"
  by (simp add: walks_append walks_single [OF assms])

lemma walks_le:
  assumes "tree_inv fs"
  shows "walks fs a ns z \<Longrightarrow> a \<le> z \<and> (ns \<noteq> [] \<longrightarrow> a < z)"
proof (induction ns arbitrary: a)
  case Nil
  then show ?case by (simp add: walks_Nil_iff)
next
  case (Cons n ns)
  from Cons.prems obtain c where "edge fs a n c" "walks fs c ns z"
    using walks_step [OF assms] by blast
  with Cons.IH [of c] tree_invD(3) [OF assms, of a n c] show ?case by auto
qed

lemma chain_unique:
  assumes inv: "tree_inv fs"
  shows "walks fs a ns z \<Longrightarrow> walks fs a ns' z \<Longrightarrow> ns = ns'"
proof (induction ns arbitrary: ns' z rule: rev_induct)
  case Nil
  then have "z = a" by (simp add: walks_Nil_iff)
  with Nil.prems(2) walks_le [OF inv, of a ns' z] show ?case by auto
next
  case (snoc x xs)
  from snoc.prems(1) obtain m where m: "walks fs a xs m" "edge fs m x z"
    using walks_snoc [OF inv] by blast
  from walks_le [OF inv m(1)] tree_invD(3) [OF inv m(2)] have lt: "a < z" by simp
  show ?case
  proof (cases ns' rule: rev_cases)
    case Nil
    with snoc.prems(2) have "z = a" by (simp add: walks_Nil_iff)
    with lt show ?thesis by simp
  next
    case (snoc ys y)
    with snoc.prems(2) obtain m' where m': "walks fs a ys m'" "edge fs m' y z"
      using walks_snoc [OF inv] by blast
    from tree_invD(5) [OF inv m(2) m'(2)] have "m' = m" "y = x" by simp_all
    with m' snoc.IH [of m ys] m(1) snoc show ?thesis by simp
  qed
qed

lemma all_reachable_init: "all_reachable (FileSystem_init n)"
proof -
  have "dom (inodes (FileSystem_init n)) = {root (FileSystem_init n)}"
    by (auto simp: FileSystem_init_def alloc_inode_id_def split: if_splits)
  moreover have "walks (FileSystem_init n) (root (FileSystem_init n)) [] (root (FileSystem_init n))"
    by (rule walks_Nil)
  ultimately show ?thesis unfolding all_reachable_def by (metis singletonD)
qed

lemma walks_mono:
  assumes "tree_inv fs" and "tree_inv fs'"
    and "\<And>q nm c. edge fs q nm c \<Longrightarrow> edge fs' q nm c"
  shows "walks fs a ns z \<Longrightarrow> walks fs' a ns z"
proof (induction ns arbitrary: a)
  case Nil
  then show ?case by (simp add: walks_Nil_iff)
next
  case (Cons n ns)
  from Cons.prems obtain c where "edge fs a n c" "walks fs c ns z"
    using walks_step [OF assms(1)] by blast
  with Cons.IH [of c] assms(3) have "edge fs' a n c \<and> walks fs' c ns z" by blast
  then show ?case using walks_step [OF assms(2)] by blast
qed

lemma all_reachable_added:
  assumes inv: "tree_inv fs" and add: "entry_added fs fs' p name node"
    and node: "node = File_init (next_inode_id fs) \<or> node = Directory_init (next_inode_id fs)"
    and p: "p \<in> dom (inodes fs)" and ar: "all_reachable fs"
  shows "all_reachable fs'"
  unfolding all_reachable_def
proof
  fix i assume i: "i \<in> dom (inodes fs')"
  note e = added_edge [OF inv add node]
  have inv': "tree_inv fs'" by (rule tree_inv_added [OF inv add node])
  from add have r: "root fs' = root fs"
    and ino: "inodes fs' = (inodes fs)(next_inode_id fs \<mapsto> next_inode_id fs)"
    by (auto elim: entry_added_fields)
  have mono: "walks fs a ns z \<Longrightarrow> walks fs' a ns z" for a ns z
    by (rule walks_mono [OF inv inv']) (simp_all add: e(1))
  show "\<exists>names. walks fs' (root fs') names i"
  proof (cases "i = next_inode_id fs")
    case True
    from ar p obtain names where "walks fs (root fs) names p"
      unfolding all_reachable_def by blast
    then have "walks fs' (root fs') names p" using mono r by simp
    moreover have "edge fs' p name i" using e(1) [of p name i] True by simp
    ultimately have "walks fs' (root fs') (names @ [name]) i"
      using walks_snoc [OF inv'] by blast
    then show ?thesis ..
  next
    case False
    with i ino have "i \<in> dom (inodes fs)" by auto
    with ar obtain names where "walks fs (root fs) names i"
      unfolding all_reachable_def by blast
    then have "walks fs' (root fs') names i" using mono r by simp
    then show ?thesis ..
  qed
qed

lemma edge_fun:
  assumes "tree_inv fs" and "edge fs p nm c" and "edge fs p nm c'"
  shows "c' = c"
proof -
  from assms(2) obtain ents where e: "dir_entries fs p = Some ents" "(nm, c) \<in> set ents"
    by (auto simp: edge_def)
  with assms(3) have "(nm, c') \<in> set ents" by (auto simp: edge_def)
  with e(2) tree_invD(4) [OF assms(1) e(1)] show ?thesis
    by (meson eq_key_imp_eq_value)
qed

lemma walks_removed:
  assumes inv: "tree_inv fs" and rem: "entry_removed fs fs' p name c node"
    and leaf: "\<And>nm c'. \<not> edge fs c nm c'"
  shows "walks fs a ns z \<Longrightarrow> z \<noteq> c \<Longrightarrow> walks fs' a ns z"
proof (induction ns arbitrary: a)
  case Nil
  then show ?case by (simp add: walks_Nil_iff)
next
  case (Cons n ns)
  note e = removed_edge [OF inv rem]
  have inv': "tree_inv fs'" by (rule tree_inv_removed [OF inv rem])
  from Cons.prems(1) obtain c1 where c1: "edge fs a n c1" "walks fs c1 ns z"
    using walks_step [OF inv] by blast
  have "\<not> (a = p \<and> n = name)"
  proof
    assume h: "a = p \<and> n = name"
    with c1(1) e(1) have "c1 = c" using edge_fun [OF inv, of p name c c1] by simp
    with c1(2) have w: "walks fs c ns z" by simp
    have "ns = []"
    proof (cases ns)
      case Nil then show ?thesis .
    next
      case (Cons m ms)
      with w obtain c2 where "edge fs c m c2" using walks_step [OF inv] by blast
      with leaf show ?thesis by blast
    qed
    with w have "z = c" by (simp add: walks_Nil_iff)
    with Cons.prems(2) show False by simp
  qed
  with c1(1) e(3) [of a n c1] have "edge fs' a n c1" by simp
  moreover have "walks fs' c1 ns z" by (rule Cons.IH [OF c1(2) Cons.prems(2)])
  ultimately show ?case using walks_step [OF inv'] by blast
qed

lemma all_reachable_removed:
  assumes inv: "tree_inv fs" and rem: "entry_removed fs fs' p name c node"
    and leaf: "\<And>nm c'. \<not> edge fs c nm c'" and ar: "all_reachable fs"
  shows "all_reachable fs'"
  unfolding all_reachable_def
proof
  fix i assume i: "i \<in> dom (inodes fs')"
  from rem have r: "root fs' = root fs" and ino: "inodes fs' = (inodes fs)(c := None)"
    by (auto elim: entry_removed_fields)
  from i ino have ic: "i \<noteq> c" "i \<in> dom (inodes fs)" by (auto split: if_splits)
  with ar obtain names where "walks fs (root fs) names i"
    unfolding all_reachable_def by blast
  from walks_removed [OF inv rem leaf this ic(1)] r
  have "walks fs' (root fs') names i" by simp
  then show "\<exists>names. walks fs' (root fs') names i" ..
qed

lemma all_reachable_file_change:
  assumes a: "objs fs a = Some (File iid sz bl)"
    and o: "objs fs' = (objs fs)(a \<mapsto> File iid sz' bl')"
    and i: "inodes fs' = inodes fs" and r: "root fs' = root fs" and ar: "all_reachable fs"
  shows "all_reachable fs'"
proof -
  have "traverse_from fs' x ns = traverse_from fs x ns" for x ns
    by (rule traverse_from_cong [OF dir_entries_File_upd [OF a o]])
  then have "walks fs' x ns z = walks fs x ns z" for x ns z by (simp add: walks_iff)
  with ar i r show ?thesis unfolding all_reachable_def by simp
qed

lemma all_reachable_exec:
  assumes inv: "tree_inv fs" and ar: "all_reachable fs" and no: "\<not> removes_nonempty_dir fs c"
  shows "all_reachable (exec fs c)"
proof (cases c)
  case (Mkdir path)
  from mkdir_result [of fs path] show ?thesis
  proof
    assume "snd (mkdir fs path) = fs \<and> fst (mkdir fs path) \<noteq> Inr True"
    with ar Mkdir show ?thesis by simp
  next
    assume "\<exists>p name. split_parent fs path = Inr (Some p, name) \<and> fst (mkdir fs path) = Inr True
         \<and> entry_added fs (snd (mkdir fs path)) p name (Directory_init (next_inode_id fs))"
    then obtain p name where sp: "split_parent fs path = Inr (Some p, name)"
      and add: "entry_added fs (snd (mkdir fs path)) p name (Directory_init (next_inode_id fs))"
      by blast
    from all_reachable_added [OF inv add _ split_parent_registered [OF inv sp] ar] Mkdir
    show ?thesis by simp
  qed
next
  case (CreateFile path)
  from create_file_result [of fs path] show ?thesis
  proof
    assume "snd (create_file fs path) = fs \<and> fst (create_file fs path) \<noteq> Inr True"
    with ar CreateFile show ?thesis by simp
  next
    assume "\<exists>p name. split_parent fs path = Inr (Some p, name)
         \<and> fst (create_file fs path) = Inr True
         \<and> entry_added fs (snd (create_file fs path)) p name (File_init (next_inode_id fs))"
    then obtain p name where sp: "split_parent fs path = Inr (Some p, name)"
      and add: "entry_added fs (snd (create_file fs path)) p name (File_init (next_inode_id fs))"
      by blast
    from all_reachable_added [OF inv add _ split_parent_registered [OF inv sp] ar] CreateFile
    show ?thesis by simp
  qed
next
  case (Write path d off)
  from write_file_result [of fs path d off] ar Write show ?thesis
    by (auto intro: all_reachable_file_change)
next
  case (Read path n off)
  with ar show ?thesis by (simp add: read_def split: option.splits INode.splits sum.splits)
next
  case (Ls path)
  with ar show ?thesis by (simp add: ls_def split: option.splits INode.splits)
next
  case (Delete path)
  from delete_result [OF inv, of path] show ?thesis
  proof
    assume "snd (delete fs path) = fs \<and> fst (delete fs path) \<noteq> Inr True"
    with ar Delete show ?thesis by simp
  next
    assume "\<exists>p name c node. split_parent fs path = Inr (Some p, name)
         \<and> fst (delete fs path) = Inr True
         \<and> entry_removed fs (snd (delete fs path)) p name c node"
    then obtain p name c node where sp: "split_parent fs path = Inr (Some p, name)"
      and rem: "entry_removed fs (snd (delete fs path)) p name c node" by blast
    from rem obtain pid psz pbl ents where
      p: "objs fs p = Some (Directory pid psz pbl ents)" and m: "map_of ents name = Some c"
      by (rule entry_removed_fields)
    from p have de: "dir_entries fs p = Some ents" by (simp add: dir_entries_def)
    from no Delete sp de m have "dir_entries fs c = None \<or> dir_entries fs c = Some []"
      by (auto split: option.splits list.splits)
    then have leaf: "\<not> edge fs c nm c'" for nm c' by (auto simp: edge_def)
    from all_reachable_removed [OF inv rem leaf ar] Delete show ?thesis by simp
  qed
qed

lemma all_reachable_run:
  "tree_inv fs \<Longrightarrow> all_reachable fs \<Longrightarrow> no_orphaning fs cs \<Longrightarrow> all_reachable (run fs cs)"
  unfolding run_def
proof (induction cs arbitrary: fs)
  case Nil
  then show ?case by simp
next
  case (Cons c cs)
  from Cons.prems have "tree_inv (exec fs c)" "all_reachable (exec fs c)"
    "no_orphaning (exec fs c) cs"
    by (simp_all add: tree_inv_exec all_reachable_exec)
  from Cons.IH [OF this] show ?case by simp
qed

lemma walks_dir:
  assumes "tree_inv fs" and "walks fs a ns z" and "ns \<noteq> []"
  shows "dir_entries fs a \<noteq> None"
proof (cases ns)
  case Nil
  with assms(3) show ?thesis by simp
next
  case (Cons n ms)
  with assms(2) obtain c where "edge fs a n c" using walks_step [OF assms(1)] by blast
  then show ?thesis by (auto simp: edge_def)
qed

lemma walks_removed_sub:
  assumes inv: "tree_inv fs" and rem: "entry_removed fs fs' p name c node"
  shows "walks fs' a ns z \<Longrightarrow> walks fs a ns z"
  by (rule walks_mono [OF tree_inv_removed [OF inv rem] inv])
    (simp add: removed_edge(3) [OF inv rem])

lemma walks_removed_split:
  assumes inv: "tree_inv fs" and rem: "entry_removed fs fs' p name c node"
  shows "walks fs a ns z \<Longrightarrow> walks fs' a ns z \<or> (\<exists>post. walks fs' c post z)"
proof (induction ns arbitrary: a)
  case Nil
  then show ?case by (simp add: walks_Nil_iff)
next
  case (Cons n ns)
  note e = removed_edge [OF inv rem]
  have inv': "tree_inv fs'" by (rule tree_inv_removed [OF inv rem])
  from Cons.prems obtain c1 where c1: "edge fs a n c1" "walks fs c1 ns z"
    using walks_step [OF inv] by blast
  from Cons.IH [OF c1(2)] show ?case
  proof
    assume w: "walks fs' c1 ns z"
    show ?thesis
    proof (cases "a = p \<and> n = name")
      case True
      with c1(1) e(1) have "c1 = c" using edge_fun [OF inv, of p name c c1] by simp
      with w show ?thesis by blast
    next
      case False
      with c1(1) e(3) [of a n c1] have "edge fs' a n c1" by simp
      with w show ?thesis using walks_step [OF inv'] by blast
    qed
  next
    assume "\<exists>post. walks fs' c post z"
    then show ?thesis ..
  qed
qed

lemma root_chain_through:
  assumes inv: "tree_inv fs"
  shows "walks fs a ms z \<Longrightarrow> walks fs (root fs) ns z \<Longrightarrow> \<exists>pre. walks fs (root fs) pre a"
proof (induction ms arbitrary: ns z rule: rev_induct)
  case Nil
  then show ?case by (auto simp: walks_Nil_iff)
next
  case (snoc m ms)
  from snoc.prems(1) obtain y where y: "walks fs a ms y" "edge fs y m z"
    using walks_snoc [OF inv] by blast
  from y(2) have "dir_entries fs y \<noteq> None" by (auto simp: edge_def)
  then obtain node where "objs fs y = Some node" using dir_entries_dom by blast
  from tree_invD(2) [OF inv this] tree_invD(3) [OF inv y(2)] have lt: "root fs < z" by simp
  show ?case
  proof (cases ns rule: rev_cases)
    case Nil
    with snoc.prems(2) lt show ?thesis by (simp add: walks_Nil_iff)
  next
    case (snoc ns' n)
    with snoc.prems(2) obtain y' where y': "walks fs (root fs) ns' y'" "edge fs y' n z"
      using walks_snoc [OF inv] by blast
    from tree_invD(5) [OF inv y(2) y'(2)] have "y' = y" by simp
    with y'(1) snoc.IH [OF y(1)] show ?thesis by blast
  qed
qed

lemma removed_unreachable:
  assumes inv: "tree_inv fs" and a: "removed_dir fs a" and w: "walks fs a ms z"
  shows "\<not> walks fs (root fs) ns z"
proof
  assume "walks fs (root fs) ns z"
  from root_chain_through [OF inv w this] obtain pre where "walks fs (root fs) pre a" ..
  from walks_registered [OF inv this tree_invD(7) [OF inv]] a show False
    by (simp add: removed_dir_def)
qed

lemma anchored_init: "anchored (FileSystem_init n)"
proof -
  have "dom (inodes (FileSystem_init n)) = {root (FileSystem_init n)}"
    by (auto simp: FileSystem_init_def alloc_inode_id_def split: if_splits)
  moreover have "walks (FileSystem_init n) (root (FileSystem_init n)) [] (root (FileSystem_init n))"
    by (rule walks_Nil)
  ultimately show ?thesis unfolding anchored_def by (metis singletonD)
qed

lemma removed_dir_init: "\<not> removed_dir (FileSystem_init n) a"
  by (auto simp: removed_dir_def dir_entries_def FileSystem_init_def alloc_inode_id_def
      Directory_init_def split: if_splits)

lemma removed_dir_added:
  assumes inv: "tree_inv fs" and add: "entry_added fs fs' p name node"
    and node: "node = File_init (next_inode_id fs) \<or> node = Directory_init (next_inode_id fs)"
  shows "removed_dir fs' a = removed_dir fs a"
proof -
  note e = added_edge [OF inv add node]
  from add have ino: "inodes fs' = (inodes fs)(next_inode_id fs \<mapsto> next_inode_id fs)"
    by (auto elim: entry_added_fields)
  show ?thesis
  proof (cases "a = next_inode_id fs")
    case True
    with ino e(2) show ?thesis using dir_entries_dom [of fs a]
      by (auto simp: removed_dir_def)
  next
    case False
    show ?thesis
    proof (cases "a = p")
      case True
      with e(4) False ino show ?thesis by (auto simp: removed_dir_def)
    next
      case np: False
      from e(5) [OF np False] False ino show ?thesis by (auto simp: removed_dir_def)
    qed
  qed
qed

lemma anchored_added:
  assumes inv: "tree_inv fs" and add: "entry_added fs fs' p name node"
    and node: "node = File_init (next_inode_id fs) \<or> node = Directory_init (next_inode_id fs)"
    and p: "p \<in> dom (inodes fs)" and an: "anchored fs"
  shows "anchored fs'"
  unfolding anchored_def
proof
  fix i assume i: "i \<in> dom (inodes fs')"
  note e = added_edge [OF inv add node]
  note rd = removed_dir_added [OF inv add node]
  have inv': "tree_inv fs'" by (rule tree_inv_added [OF inv add node])
  from add have r: "root fs' = root fs"
    and ino: "inodes fs' = (inodes fs)(next_inode_id fs \<mapsto> next_inode_id fs)"
    by (auto elim: entry_added_fields)
  have mono: "walks fs a ns z \<Longrightarrow> walks fs' a ns z" for a ns z
    by (rule walks_mono [OF inv inv']) (simp_all add: e(1))
  show "\<exists>a names. walks fs' a names i \<and> (a = root fs' \<or> removed_dir fs' a)"
  proof (cases "i = next_inode_id fs")
    case True
    from an p obtain a names where a: "walks fs a names p" "a = root fs \<or> removed_dir fs a"
      unfolding anchored_def by blast
    from a(1) have "walks fs' a names p" by (rule mono)
    moreover have "edge fs' p name i" using e(1) [of p name i] True by simp
    ultimately have "walks fs' a (names @ [name]) i"
      using walks_snoc [OF inv'] by blast
    with a(2) r rd show ?thesis by auto
  next
    case False
    with i ino have "i \<in> dom (inodes fs)" by auto
    with an obtain a names where a: "walks fs a names i" "a = root fs \<or> removed_dir fs a"
      unfolding anchored_def by blast
    from a(1) have "walks fs' a names i" by (rule mono)
    with a(2) r rd show ?thesis by auto
  qed
qed

lemma removed_dir_removed:
  assumes inv: "tree_inv fs" and rem: "entry_removed fs fs' p name c node"
  shows "removed_dir fs' a = (removed_dir fs a \<or> (a = c \<and> dir_entries fs c \<noteq> None))"
proof -
  note e = removed_edge [OF inv rem]
  from rem have ino: "inodes fs' = (inodes fs)(c := None)"
    by (auto elim: entry_removed_fields)
  from rem obtain pid psz pbl ents where
    "objs fs p = Some (Directory pid psz pbl ents)" by (rule entry_removed_fields)
  then have "dir_entries fs p \<noteq> None" by (simp add: dir_entries_def)
  have "c \<in> dom (inodes fs) \<or> dir_entries fs c = None \<or> removed_dir fs c"
    by (auto simp: removed_dir_def)
  with e(5) [of a] ino show ?thesis by (auto simp: removed_dir_def)
qed

lemma anchored_removed:
  assumes inv: "tree_inv fs" and rem: "entry_removed fs fs' p name c node"
    and an: "anchored fs"
  shows "anchored fs'"
  unfolding anchored_def
proof
  fix i assume i: "i \<in> dom (inodes fs')"
  have inv': "tree_inv fs'" by (rule tree_inv_removed [OF inv rem])
  note rd = removed_dir_removed [OF inv rem]
  note e = removed_edge [OF inv rem]
  from rem have r: "root fs' = root fs" and ino: "inodes fs' = (inodes fs)(c := None)"
    by (auto elim: entry_removed_fields)
  from i ino have ic: "i \<noteq> c" "i \<in> dom (inodes fs)" by (auto split: if_splits)
  with an obtain a names where a: "walks fs a names i" "a = root fs \<or> removed_dir fs a"
    unfolding anchored_def by blast
  from walks_removed_split [OF inv rem a(1)]
  show "\<exists>a names. walks fs' a names i \<and> (a = root fs' \<or> removed_dir fs' a)"
  proof
    assume "walks fs' a names i"
    with a(2) r rd show ?thesis by auto
  next
    assume "\<exists>post. walks fs' c post i"
    then obtain post where post: "walks fs' c post i" ..
    with ic(1) have "post \<noteq> []" by (auto simp: walks_Nil_iff)
    from walks_dir [OF inv' post this] e(5) [of c] have "dir_entries fs c \<noteq> None" by simp
    with rd [of c] post show ?thesis by blast
  qed
qed

lemma walks_file_change:
  assumes a: "objs fs a = Some (File iid sz bl)"
    and o: "objs fs' = (objs fs)(a \<mapsto> File iid sz' bl')"
  shows "walks fs' x ns z = walks fs x ns z"
proof -
  have "traverse_from fs' x ns = traverse_from fs x ns"
    by (rule traverse_from_cong [OF dir_entries_File_upd [OF a o]])
  then show ?thesis by (simp add: walks_iff)
qed

lemma anchored_file_change:
  assumes a: "objs fs a = Some (File iid sz bl)"
    and o: "objs fs' = (objs fs)(a \<mapsto> File iid sz' bl')"
    and i: "inodes fs' = inodes fs" and r: "root fs' = root fs" and an: "anchored fs"
  shows "anchored fs'"
proof -
  have "removed_dir fs' x = removed_dir fs x" for x
    by (simp add: removed_dir_def i dir_entries_File_upd [OF a o])
  with an i r walks_file_change [OF a o] show ?thesis unfolding anchored_def by simp
qed

lemma anchored_exec:
  assumes inv: "tree_inv fs" and an: "anchored fs"
  shows "anchored (exec fs c)"
proof (cases c)
  case (Mkdir path)
  from mkdir_result [of fs path] show ?thesis
  proof
    assume "snd (mkdir fs path) = fs \<and> fst (mkdir fs path) \<noteq> Inr True"
    with an Mkdir show ?thesis by simp
  next
    assume "\<exists>p name. split_parent fs path = Inr (Some p, name) \<and> fst (mkdir fs path) = Inr True
         \<and> entry_added fs (snd (mkdir fs path)) p name (Directory_init (next_inode_id fs))"
    then obtain p name where sp: "split_parent fs path = Inr (Some p, name)"
      and add: "entry_added fs (snd (mkdir fs path)) p name (Directory_init (next_inode_id fs))"
      by blast
    from anchored_added [OF inv add _ split_parent_registered [OF inv sp] an] Mkdir
    show ?thesis by simp
  qed
next
  case (CreateFile path)
  from create_file_result [of fs path] show ?thesis
  proof
    assume "snd (create_file fs path) = fs \<and> fst (create_file fs path) \<noteq> Inr True"
    with an CreateFile show ?thesis by simp
  next
    assume "\<exists>p name. split_parent fs path = Inr (Some p, name)
         \<and> fst (create_file fs path) = Inr True
         \<and> entry_added fs (snd (create_file fs path)) p name (File_init (next_inode_id fs))"
    then obtain p name where sp: "split_parent fs path = Inr (Some p, name)"
      and add: "entry_added fs (snd (create_file fs path)) p name (File_init (next_inode_id fs))"
      by blast
    from anchored_added [OF inv add _ split_parent_registered [OF inv sp] an] CreateFile
    show ?thesis by simp
  qed
next
  case (Write path d off)
  from write_file_result [of fs path d off] an Write show ?thesis
    by (auto intro: anchored_file_change)
next
  case (Read path n off)
  with an show ?thesis by (simp add: read_def split: option.splits INode.splits sum.splits)
next
  case (Ls path)
  with an show ?thesis by (simp add: ls_def split: option.splits INode.splits)
next
  case (Delete path)
  from delete_result [OF inv, of path] show ?thesis
  proof
    assume "snd (delete fs path) = fs \<and> fst (delete fs path) \<noteq> Inr True"
    with an Delete show ?thesis by simp
  next
    assume "\<exists>p name c node. split_parent fs path = Inr (Some p, name)
         \<and> fst (delete fs path) = Inr True
         \<and> entry_removed fs (snd (delete fs path)) p name c node"
    then obtain p name c node where
      rem: "entry_removed fs (snd (delete fs path)) p name c node" by blast
    from anchored_removed [OF inv rem an] Delete show ?thesis by simp
  qed
qed

lemma anchored_run: "tree_inv fs \<Longrightarrow> anchored fs \<Longrightarrow> anchored (run fs cs)"
  unfolding run_def
proof (induction cs arbitrary: fs)
  case Nil
  then show ?case by simp
next
  case (Cons c cs)
  from Cons.prems have "tree_inv (exec fs c)" "anchored (exec fs c)"
    by (simp_all add: tree_inv_exec anchored_exec)
  from Cons.IH [OF this] show ?case by simp
qed


lemma read_state: "snd (read fs path n off) = fs"
  by (simp add: read_def split: option.splits INode.splits sum.splits)

lemma ls_state: "snd (ls fs path) = fs"
  by (simp add: ls_def split: option.splits INode.splits)

lemma split_parent_walks:
  assumes "split_parent fs path = Inr (Some p, name)"
  shows "\<exists>pp. walks fs (root fs) pp p"
proof -
  from assms obtain pp where "traverse fs pp = Some p"
    by (auto simp: split_parent_def split: sum.splits prod.splits)
  then have "walks fs (root fs) (path_parts pp) p"
    unfolding traverse_def by (rule traverse_from_walks)
  then show ?thesis ..
qed

lemma reach_added:
  assumes inv: "tree_inv fs" and add: "entry_added fs fs' p name node"
    and node: "node = File_init (next_inode_id fs) \<or> node = Directory_init (next_inode_id fs)"
    and pw: "walks fs (root fs) pp p" and i: "i \<in> dom (inodes fs')"
    and old: "i \<in> dom (inodes fs) \<longrightarrow> (\<exists>names. walks fs (root fs) names i)"
  shows "\<exists>names. walks fs' (root fs') names i"
proof -
  note e = added_edge [OF inv add node]
  have inv': "tree_inv fs'" by (rule tree_inv_added [OF inv add node])
  from add have r: "root fs' = root fs"
    and ino: "inodes fs' = (inodes fs)(next_inode_id fs \<mapsto> next_inode_id fs)"
    by (auto elim: entry_added_fields)
  have mono: "walks fs a ns z \<Longrightarrow> walks fs' a ns z" for a ns z
    by (rule walks_mono [OF inv inv']) (simp_all add: e(1))
  show ?thesis
  proof (cases "i = next_inode_id fs")
    case True
    from pw have "walks fs' (root fs') pp p" using mono r by simp
    moreover have "edge fs' p name i" using e(1) [of p name i] True by simp
    ultimately have "walks fs' (root fs') (pp @ [name]) i"
      using walks_snoc [OF inv'] by blast
    then show ?thesis ..
  next
    case False
    with i ino have "i \<in> dom (inodes fs)" by auto
    with old obtain names where "walks fs (root fs) names i" by blast
    then have "walks fs' (root fs') names i" using mono r by simp
    then show ?thesis ..
  qed
qed

lemma reach_removed:
  assumes inv: "tree_inv fs" and rem: "entry_removed fs fs' p name c node"
    and leaf: "\<And>nm c'. \<not> edge fs c nm c'" and i: "i \<in> dom (inodes fs')"
    and old: "i \<in> dom (inodes fs) \<longrightarrow> (\<exists>names. walks fs (root fs) names i)"
  shows "\<exists>names. walks fs' (root fs') names i"
proof -
  from rem have r: "root fs' = root fs" and ino: "inodes fs' = (inodes fs)(c := None)"
    by (auto elim: entry_removed_fields)
  from i ino have ic: "i \<noteq> c" "i \<in> dom (inodes fs)" by (auto split: if_splits)
  with old obtain names where "walks fs (root fs) names i" by blast
  from walks_removed [OF inv rem leaf this ic(1)] r
  have "walks fs' (root fs') names i" by simp
  then show ?thesis ..
qed

lemma reach_file_change:
  assumes a: "objs fs a = Some (File iid sz bl)"
    and o: "objs fs' = (objs fs)(a \<mapsto> File iid sz' bl')"
    and ino: "inodes fs' = inodes fs" and r: "root fs' = root fs"
    and i: "i \<in> dom (inodes fs')"
    and old: "i \<in> dom (inodes fs) \<longrightarrow> (\<exists>names. walks fs (root fs) names i)"
  shows "\<exists>names. walks fs' (root fs') names i"
  using i old by (simp add: walks_file_change [OF a o] ino r)

lemma reach_exec:
  assumes inv: "tree_inv fs" and no: "\<not> removes_nonempty_dir fs c"
    and i: "i \<in> dom (inodes (exec fs c))"
    and old: "i \<in> dom (inodes fs) \<longrightarrow> (\<exists>names. walks fs (root fs) names i)"
  shows "\<exists>names. walks (exec fs c) (root (exec fs c)) names i"
proof (cases c)
  case (Mkdir path)
  from mkdir_result [of fs path] show ?thesis
  proof
    assume "snd (mkdir fs path) = fs \<and> fst (mkdir fs path) \<noteq> Inr True"
    with i old Mkdir show ?thesis by simp
  next
    assume "\<exists>p name. split_parent fs path = Inr (Some p, name) \<and> fst (mkdir fs path) = Inr True
         \<and> entry_added fs (snd (mkdir fs path)) p name (Directory_init (next_inode_id fs))"
    then obtain p name where sp: "split_parent fs path = Inr (Some p, name)"
      and add: "entry_added fs (snd (mkdir fs path)) p name (Directory_init (next_inode_id fs))"
      by blast
    from split_parent_walks [OF sp] obtain pp where pw: "walks fs (root fs) pp p" ..
    from i Mkdir have "i \<in> dom (inodes (snd (mkdir fs path)))" by simp
    from reach_added [OF inv add _ pw this old] Mkdir show ?thesis by simp
  qed
next
  case (CreateFile path)
  from create_file_result [of fs path] show ?thesis
  proof
    assume "snd (create_file fs path) = fs \<and> fst (create_file fs path) \<noteq> Inr True"
    with i old CreateFile show ?thesis by simp
  next
    assume "\<exists>p name. split_parent fs path = Inr (Some p, name)
         \<and> fst (create_file fs path) = Inr True
         \<and> entry_added fs (snd (create_file fs path)) p name (File_init (next_inode_id fs))"
    then obtain p name where sp: "split_parent fs path = Inr (Some p, name)"
      and add: "entry_added fs (snd (create_file fs path)) p name (File_init (next_inode_id fs))"
      by blast
    from split_parent_walks [OF sp] obtain pp where pw: "walks fs (root fs) pp p" ..
    from i CreateFile have "i \<in> dom (inodes (snd (create_file fs path)))" by simp
    from reach_added [OF inv add _ pw this old] CreateFile show ?thesis by simp
  qed
next
  case (Write path d off)
  from write_file_result [of fs path d off] show ?thesis
  proof
    assume "snd (write_file fs path d off) = fs"
    with i old Write show ?thesis by simp
  next
    assume "\<exists>a iid sz bl sz' bl'. traverse fs path = Some a \<and> objs fs a = Some (File iid sz bl)
         \<and> objs (snd (write_file fs path d off)) = (objs fs)(a \<mapsto> File iid sz' bl')
         \<and> inodes (snd (write_file fs path d off)) = inodes fs
         \<and> next_inode_id (snd (write_file fs path d off)) = next_inode_id fs
         \<and> root (snd (write_file fs path d off)) = root fs"
    then obtain a iid sz bl sz' bl' where a: "objs fs a = Some (File iid sz bl)"
      and o: "objs (snd (write_file fs path d off)) = (objs fs)(a \<mapsto> File iid sz' bl')"
      and ino: "inodes (snd (write_file fs path d off)) = inodes fs"
      and r: "root (snd (write_file fs path d off)) = root fs" by blast
    from i Write have "i \<in> dom (inodes (snd (write_file fs path d off)))" by simp
    from reach_file_change [OF a o ino r this old] Write show ?thesis by simp
  qed
next
  case (Read path n off)
  with i old show ?thesis by (simp add: read_state)
next
  case (Ls path)
  with i old show ?thesis by (simp add: ls_state)
next
  case (Delete path)
  from delete_result [OF inv, of path] show ?thesis
  proof
    assume "snd (delete fs path) = fs \<and> fst (delete fs path) \<noteq> Inr True"
    with i old Delete show ?thesis by simp
  next
    assume "\<exists>p name c node. split_parent fs path = Inr (Some p, name)
         \<and> fst (delete fs path) = Inr True
         \<and> entry_removed fs (snd (delete fs path)) p name c node"
    then obtain p name c node where sp: "split_parent fs path = Inr (Some p, name)"
      and rem: "entry_removed fs (snd (delete fs path)) p name c node" by blast
    from rem obtain pid psz pbl ents where
      p: "objs fs p = Some (Directory pid psz pbl ents)" and m: "map_of ents name = Some c"
      by (rule entry_removed_fields)
    from p have de: "dir_entries fs p = Some ents" by (simp add: dir_entries_def)
    from no Delete sp de m have "dir_entries fs c = None \<or> dir_entries fs c = Some []"
      by (auto split: option.splits list.splits)
    then have leaf: "\<not> edge fs c nm c'" for nm c' by (auto simp: edge_def)
    from i Delete have "i \<in> dom (inodes (snd (delete fs path)))" by simp
    from reach_removed [OF inv rem leaf this old] Delete show ?thesis by simp
  qed
qed

lemma reach_run:
  "tree_inv fs \<Longrightarrow> no_orphaning fs cs \<Longrightarrow> i \<in> dom (inodes (run fs cs))
     \<Longrightarrow> i \<in> dom (inodes fs) \<longrightarrow> (\<exists>names. walks fs (root fs) names i)
     \<Longrightarrow> \<exists>names. walks (run fs cs) (root (run fs cs)) names i"
  unfolding run_def
proof (induction cs arbitrary: fs)
  case Nil
  then show ?case by simp
next
  case (Cons c cs)
  from Cons.prems(1,2) have inv': "tree_inv (exec fs c)" and no: "\<not> removes_nonempty_dir fs c"
    and no': "no_orphaning (exec fs c) cs"
    by (simp_all add: tree_inv_exec)
  from Cons.prems(3) have i: "i \<in> dom (inodes (foldl exec (exec fs c) cs))" by simp
  have "i \<in> dom (inodes (exec fs c))
      \<longrightarrow> (\<exists>names. walks (exec fs c) (root (exec fs c)) names i)"
    using reach_exec [OF Cons.prems(1) no _ Cons.prems(4)] by blast
  from Cons.IH [OF inv' no' i this] show ?case by simp
qed

lemma delete_target:
  assumes inv: "tree_inv fs" and ok: "fst (delete fs path) = Inr True"
    and sp: "split_parent fs path = Inr (Some p, name)" and e: "edge fs p name c"
  shows "\<exists>node. entry_removed fs (snd (delete fs path)) p name c node"
proof -
  from delete_result [OF inv, of path] ok sp obtain c' node where
    rem: "entry_removed fs (snd (delete fs path)) p name c' node" by auto
  from edge_fun [OF inv e removed_edge(1) [OF inv rem]] rem show ?thesis by blast
qed

lemma delete_orphans:
  assumes inv: "tree_inv fs" and rem: "entry_removed fs fs' p name c node"
    and pw: "walks fs (root fs) pp p" and w: "walks fs c below i" and ne: "below \<noteq> []"
  shows "i \<in> dom (inodes fs') \<and> (\<forall>names. \<not> walks fs' (root fs') names i)"
proof -
  have inv': "tree_inv fs'" by (rule tree_inv_removed [OF inv rem])
  note e = removed_edge [OF inv rem]
  from rem have ino: "inodes fs' = (inodes fs)(c := None)"
    by (auto elim: entry_removed_fields)
  have "p \<in> dom (inodes fs)" by (rule walks_registered [OF inv pw tree_invD(7) [OF inv]])
  from tree_invD(8) [OF inv this e(1)] have "c \<in> dom (inodes fs)" .
  from walks_registered [OF inv w this] have "i \<in> dom (inodes fs)" .
  moreover from walks_le [OF inv w] ne have ic: "i \<noteq> c" by simp
  ultimately have 1: "i \<in> dom (inodes fs')" using ino by simp
  from walks_removed_split [OF inv rem w] obtain post where post: "walks fs' c post i" by blast
  with ic have "post \<noteq> []" by (auto simp: walks_Nil_iff)
  from walks_dir [OF inv' post this] ino have "removed_dir fs' c" by (simp add: removed_dir_def)
  from removed_unreachable [OF inv' this post] 1 show ?thesis by blast
qed

lemma delete_keeps:
  assumes inv: "tree_inv fs" and rem: "entry_removed fs fs' p name c node"
    and w: "walks fs (root fs) names i"
  shows "walks fs' (root fs') names i \<or> (\<exists>below. walks fs c below i)"
proof -
  from rem have r: "root fs' = root fs" by (auto elim: entry_removed_fields)
  from walks_removed_split [OF inv rem w] walks_removed_sub [OF inv rem] r
  show ?thesis by auto
qed

lemma removed_dir_file_change:
  assumes a: "objs fs a = Some (File iid sz bl)"
    and o: "objs fs' = (objs fs)(a \<mapsto> File iid sz' bl')"
    and i: "inodes fs' = inodes fs"
  shows "removed_dir fs' x = removed_dir fs x"
  by (simp add: removed_dir_def i dir_entries_File_upd [OF a o])

lemma removed_dir_exec:
  assumes inv: "tree_inv fs" and rd: "removed_dir (exec fs c) a"
  shows "removed_dir fs a
     \<or> (\<exists>path p name. c = Delete path \<and> fst (delete fs path) = Inr True
           \<and> split_parent fs path = Inr (Some p, name) \<and> edge fs p name a
           \<and> dir_entries fs a \<noteq> None)"
proof (cases c)
  case (Mkdir path)
  from mkdir_result [of fs path] rd Mkdir show ?thesis
    by (auto simp: removed_dir_added [OF inv])
next
  case (CreateFile path)
  from create_file_result [of fs path] rd CreateFile show ?thesis
    by (auto simp: removed_dir_added [OF inv])
next
  case (Write path d off)
  from write_file_result [of fs path d off] rd Write show ?thesis
    by (auto simp: removed_dir_file_change)
next
  case (Read path n off)
  with rd show ?thesis by (simp add: read_state)
next
  case (Ls path)
  with rd show ?thesis by (simp add: ls_state)
next
  case (Delete path)
  from delete_result [OF inv, of path] show ?thesis
  proof
    assume "snd (delete fs path) = fs \<and> fst (delete fs path) \<noteq> Inr True"
    with rd Delete show ?thesis by simp
  next
    assume "\<exists>p name c node. split_parent fs path = Inr (Some p, name)
         \<and> fst (delete fs path) = Inr True
         \<and> entry_removed fs (snd (delete fs path)) p name c node"
    then obtain p name c' node where sp: "split_parent fs path = Inr (Some p, name)"
      and ok: "fst (delete fs path) = Inr True"
      and rem: "entry_removed fs (snd (delete fs path)) p name c' node" by blast
    from rd Delete have "removed_dir (snd (delete fs path)) a" by simp
    then have "removed_dir fs a \<or> (a = c' \<and> dir_entries fs a \<noteq> None)"
      by (auto simp: removed_dir_removed [OF inv rem])
    with removed_edge(1) [OF inv rem] sp ok Delete show ?thesis by blast
  qed
qed

lemma removed_dir_run:
  "removed_dir (run (FileSystem_init n) cs) a
     \<Longrightarrow> \<exists>cs1 path cs2 p name. cs = cs1 @ Delete path # cs2
           \<and> fst (delete (run (FileSystem_init n) cs1) path) = Inr True
           \<and> split_parent (run (FileSystem_init n) cs1) path = Inr (Some p, name)
           \<and> edge (run (FileSystem_init n) cs1) p name a
           \<and> dir_entries (run (FileSystem_init n) cs1) a \<noteq> None"
proof (induction cs rule: rev_induct)
  case Nil
  then show ?case by (simp add: run_def removed_dir_init)
next
  case (snoc c cs)
  have inv: "tree_inv (run (FileSystem_init n) cs)" by (rule tree_inv_run [OF tree_inv_init])
  from snoc.prems have "removed_dir (exec (run (FileSystem_init n) cs) c) a"
    by (simp add: run_def)
  from removed_dir_exec [OF inv this] show ?case
  proof
    assume "removed_dir (run (FileSystem_init n) cs) a"
    from snoc.IH [OF this] obtain cs1 path cs2 p name where
      "cs = cs1 @ Delete path # cs2"
      "fst (delete (run (FileSystem_init n) cs1) path) = Inr True"
      "split_parent (run (FileSystem_init n) cs1) path = Inr (Some p, name)"
      "edge (run (FileSystem_init n) cs1) p name a
           \<and> dir_entries (run (FileSystem_init n) cs1) a \<noteq> None" by blast
    moreover from this(1) have "cs @ [c] = cs1 @ Delete path # (cs2 @ [c])" by simp
    ultimately show ?thesis by blast
  next
    assume "\<exists>path p name. c = Delete path
        \<and> fst (delete (run (FileSystem_init n) cs) path) = Inr True
        \<and> split_parent (run (FileSystem_init n) cs) path = Inr (Some p, name)
        \<and> edge (run (FileSystem_init n) cs) p name a
        \<and> dir_entries (run (FileSystem_init n) cs) a \<noteq> None"
    then obtain path p name where "c = Delete path"
      "fst (delete (run (FileSystem_init n) cs) path) = Inr True"
      "split_parent (run (FileSystem_init n) cs) path = Inr (Some p, name)"
      "edge (run (FileSystem_init n) cs) p name a
        \<and> dir_entries (run (FileSystem_init n) cs) a \<noteq> None" by blast
    moreover from this(1) have "cs @ [c] = cs @ Delete path # []" by simp
    ultimately show ?thesis by blast
  qed
qed

lemma fs_orphan_eval:
  "inodes (run (FileSystem_init 4) [Mkdir ''/a'', Mkdir ''/a/b'', Delete ''/a'']) 3 = Some 3"
  "root (run (FileSystem_init 4) [Mkdir ''/a'', Mkdir ''/a/b'', Delete ''/a'']) = 1"
  "objs (run (FileSystem_init 4) [Mkdir ''/a'', Mkdir ''/a/b'', Delete ''/a'']) 1
     = Some (Directory 1 0 [] [])"
  by (simp_all add: fs_eval delete_def)

text \<open>
  Claim C8 (tree invariant) as stated fails: after \<open>mkdir("/a")\<close>, \<open>mkdir("/a/b")\<close> and
  \<open>delete("/a")\<close> the registry still holds inode 3, the former \<open>/a/b\<close>, and no chain of
  names leads from the root to it.
\<close>

theorem orphan_counterexample:
  "inodes (run (FileSystem_init 4) [Mkdir ''/a'', Mkdir ''/a/b'', Delete ''/a'']) 3 = Some 3
   \<and> (\<forall>names. \<not> walks (run (FileSystem_init 4) [Mkdir ''/a'', Mkdir ''/a/b'', Delete ''/a''])
          (root (run (FileSystem_init 4) [Mkdir ''/a'', Mkdir ''/a/b'', Delete ''/a''])) names 3)"
proof -
  let ?fs = "run (FileSystem_init 4) [Mkdir ''/a'', Mkdir ''/a/b'', Delete ''/a'']"
  have "\<not> walks ?fs (root ?fs) names 3" for names
  proof
    assume "walks ?fs (root ?fs) names 3"
    then have "walks ?fs 1 names 3" by (simp only: fs_orphan_eval(2))
    then show False using fs_orphan_eval(3) by (cases rule: walks.cases) simp_all
  qed
  with fs_orphan_eval(1) show ?thesis by blast
qed

text \<open>
  Claim C8, amended. After every run of operations on the constructed file system:
  every inode that a chain of directory entries reaches from the root is in the registry,
  and no inode is reached by two chains (no hard links, no cycles). When no \<open>delete\<close> of
  the run removed a directory that still had entries, every inode in the registry is
  reached from the root. In general every inode in the registry is reached from the root
  or from a directory that a successful \<open>delete\<close> of the run has removed, and never from
  both. A continuation \<open>cs'\<close> with no \<open>delete\<close> of a directory that has entries adds no
  inode that is registered and not reached from the root. A successful \<open>delete\<close> of the
  directory \<open>c\<close> keeps every inode below \<open>c\<close> in the registry and leaves it unreached
  from the root, and every other inode keeps its chain from the root.
\<close>

theorem tree_chains:
  assumes "fs = run (FileSystem_init n) cs"
  shows "(\<forall>names i. walks fs (root fs) names i \<longrightarrow> i \<in> dom (inodes fs))
     \<and> (\<forall>names names' i. walks fs (root fs) names i \<and> walks fs (root fs) names' i
           \<longrightarrow> names' = names)
     \<and> (no_orphaning (FileSystem_init n) cs
           \<longrightarrow> (\<forall>i \<in> dom (inodes fs). \<exists>names. walks fs (root fs) names i))
     \<and> (\<forall>i \<in> dom (inodes fs).
           (\<exists>names. walks fs (root fs) names i)
           \<or> (\<exists>a names. removed_dir fs a \<and> walks fs a names i))
     \<and> (\<forall>a names i names'. removed_dir fs a \<and> walks fs a names i
           \<longrightarrow> \<not> walks fs (root fs) names' i)
     \<and> (\<forall>a. removed_dir fs a
           \<longrightarrow> (\<exists>cs1 path cs2 p name. cs = cs1 @ Delete path # cs2
                  \<and> fst (delete (run (FileSystem_init n) cs1) path) = Inr True
                  \<and> split_parent (run (FileSystem_init n) cs1) path = Inr (Some p, name)
                  \<and> edge (run (FileSystem_init n) cs1) p name a
                  \<and> dir_entries (run (FileSystem_init n) cs1) a \<noteq> None))
     \<and> (no_orphaning fs cs'
           \<longrightarrow> (\<forall>i \<in> dom (inodes (run fs cs')).
                  (\<exists>names. walks (run fs cs') (root (run fs cs')) names i)
                  \<or> (i \<in> dom (inodes fs) \<and> (\<forall>names. \<not> walks fs (root fs) names i))))
     \<and> (fst (delete fs path) = Inr True \<and> split_parent fs path = Inr (Some p, name)
         \<and> edge fs p name c
           \<longrightarrow> (\<forall>below i. walks fs c below i \<and> below \<noteq> []
                    \<longrightarrow> i \<in> dom (inodes (snd (delete fs path)))
                      \<and> (\<forall>names. \<not> walks (snd (delete fs path))
                                     (root (snd (delete fs path))) names i))
             \<and> (\<forall>names i. walks fs (root fs) names i
                    \<longrightarrow> walks (snd (delete fs path)) (root (snd (delete fs path))) names i
                      \<or> (\<exists>below. walks fs c below i)))"
proof -
  have inv: "tree_inv fs" unfolding assms by (rule tree_inv_run [OF tree_inv_init])
  have an: "anchored fs" unfolding assms
    by (rule anchored_run [OF tree_inv_init anchored_init])
  have 1: "\<forall>names i. walks fs (root fs) names i \<longrightarrow> i \<in> dom (inodes fs)"
    using walks_registered [OF inv _ tree_invD(7) [OF inv]] by blast
  have 2: "\<forall>names names' i. walks fs (root fs) names i \<and> walks fs (root fs) names' i
           \<longrightarrow> names' = names"
    using chain_unique [OF inv, of "root fs"] by blast
  have 3: "no_orphaning (FileSystem_init n) cs
           \<longrightarrow> (\<forall>i \<in> dom (inodes fs). \<exists>names. walks fs (root fs) names i)"
    using all_reachable_run [OF tree_inv_init all_reachable_init, of n cs]
    unfolding assms all_reachable_def by blast
  have 4: "\<forall>i \<in> dom (inodes fs).
           (\<exists>names. walks fs (root fs) names i)
           \<or> (\<exists>a names. removed_dir fs a \<and> walks fs a names i)"
    using an unfolding anchored_def by blast
  have 5: "\<forall>a names i names'. removed_dir fs a \<and> walks fs a names i
           \<longrightarrow> \<not> walks fs (root fs) names' i"
    using removed_unreachable [OF inv] by blast
  have 6: "\<forall>a. removed_dir fs a
           \<longrightarrow> (\<exists>cs1 path cs2 p name. cs = cs1 @ Delete path # cs2
                  \<and> fst (delete (run (FileSystem_init n) cs1) path) = Inr True
                  \<and> split_parent (run (FileSystem_init n) cs1) path = Inr (Some p, name)
                  \<and> edge (run (FileSystem_init n) cs1) p name a
                  \<and> dir_entries (run (FileSystem_init n) cs1) a \<noteq> None)"
    unfolding assms by (intro allI impI) (rule removed_dir_run)
  have 7: "no_orphaning fs cs'
           \<longrightarrow> (\<forall>i \<in> dom (inodes (run fs cs')).
                  (\<exists>names. walks (run fs cs') (root (run fs cs')) names i)
                  \<or> (i \<in> dom (inodes fs) \<and> (\<forall>names. \<not> walks fs (root fs) names i)))"
    using reach_run [OF inv, of cs'] by blast
  have 8: "fst (delete fs path) = Inr True \<and> split_parent fs path = Inr (Some p, name)
         \<and> edge fs p name c
           \<longrightarrow> (\<forall>below i. walks fs c below i \<and> below \<noteq> []
                    \<longrightarrow> i \<in> dom (inodes (snd (delete fs path)))
                      \<and> (\<forall>names. \<not> walks (snd (delete fs path))
                                     (root (snd (delete fs path))) names i))
             \<and> (\<forall>names i. walks fs (root fs) names i
                    \<longrightarrow> walks (snd (delete fs path)) (root (snd (delete fs path))) names i
                      \<or> (\<exists>below. walks fs c below i))"
  proof
    assume h: "fst (delete fs path) = Inr True \<and> split_parent fs path = Inr (Some p, name)
         \<and> edge fs p name c"
    from h delete_target [OF inv, of path p name c] obtain node where
      rem: "entry_removed fs (snd (delete fs path)) p name c node" by blast
    from h split_parent_walks obtain pp where pw: "walks fs (root fs) pp p" by blast
    from delete_orphans [OF inv rem pw] delete_keeps [OF inv rem]
    show "(\<forall>below i. walks fs c below i \<and> below \<noteq> []
                    \<longrightarrow> i \<in> dom (inodes (snd (delete fs path)))
                      \<and> (\<forall>names. \<not> walks (snd (delete fs path))
                                     (root (snd (delete fs path))) names i))
             \<and> (\<forall>names i. walks fs (root fs) names i
                    \<longrightarrow> walks (snd (delete fs path)) (root (snd (delete fs path))) names i
                      \<or> (\<exists>below. walks fs c below i))" by blast
  qed
  from 1 2 3 4 5 6 7 8 show ?thesis by (intro conjI)
qed

lemma fs_chain_eval:
  "no_orphaning (FileSystem_init 2)
     [Mkdir ''/a'', CreateFile ''/a/f'', Delete ''/a/f'', CreateFile ''/g'']"
  "walks (run (FileSystem_init 2)
       [Mkdir ''/a'', CreateFile ''/a/f'', Delete ''/a/f'', CreateFile ''/g''])
     (root (run (FileSystem_init 2)
       [Mkdir ''/a'', CreateFile ''/a/f'', Delete ''/a/f'', CreateFile ''/g''])) [''g''] 4"
  by (simp_all add: walks_iff fs_eval delete_def dir_entries_def)

lemma fs_orphan_run_eval:
  "removed_dir (run (FileSystem_init 4) [Mkdir ''/a'', Mkdir ''/a/b'', Delete ''/a'']) 2"
  "walks (run (FileSystem_init 4) [Mkdir ''/a'', Mkdir ''/a/b'', Delete ''/a'']) 2 [''b''] 3"
  "3 \<in> dom (inodes (run (FileSystem_init 4) [Mkdir ''/a'', Mkdir ''/a/b'', Delete ''/a'']))"
  "no_orphaning (run (FileSystem_init 4) [Mkdir ''/a'', Mkdir ''/a/b'', Delete ''/a''])
     [Mkdir ''/c'', CreateFile ''/c/f'']"
  "5 \<in> dom (inodes (run (run (FileSystem_init 4) [Mkdir ''/a'', Mkdir ''/a/b'', Delete ''/a''])
                      [Mkdir ''/c'', CreateFile ''/c/f'']))"
  "5 \<notin> dom (inodes (run (FileSystem_init 4) [Mkdir ''/a'', Mkdir ''/a/b'', Delete ''/a'']))"
  by (simp_all add: walks_iff fs_eval delete_def dir_entries_def removed_dir_def)

lemma fs_orphan_delete_eval:
  "fst (delete (run (FileSystem_init 4) [Mkdir ''/a'', Mkdir ''/a/b'', Mkdir ''/c'']) ''/a'')
     = Inr True"
  "split_parent (run (FileSystem_init 4) [Mkdir ''/a'', Mkdir ''/a/b'', Mkdir ''/c'']) ''/a''
     = Inr (Some 1, ''a'')"
  "edge (run (FileSystem_init 4) [Mkdir ''/a'', Mkdir ''/a/b'', Mkdir ''/c'']) 1 ''a'' 2"
  "walks (run (FileSystem_init 4) [Mkdir ''/a'', Mkdir ''/a/b'', Mkdir ''/c'']) 2 [''b''] 3"
  "walks (run (FileSystem_init 4) [Mkdir ''/a'', Mkdir ''/a/b'', Mkdir ''/c''])
     (root (run (FileSystem_init 4) [Mkdir ''/a'', Mkdir ''/a/b'', Mkdir ''/c''])) [''c''] 4"
  by (simp_all add: walks_iff fs_eval delete_def dir_entries_def edge_def)

theorem tree_chains_witness:
  "walks (run (FileSystem_init 2)
       [Mkdir ''/a'', CreateFile ''/a/f'', Delete ''/a/f'', CreateFile ''/g''])
     (root (run (FileSystem_init 2)
       [Mkdir ''/a'', CreateFile ''/a/f'', Delete ''/a/f'', CreateFile ''/g''])) [''g''] 4
   \<and> 4 \<in> dom (inodes (run (FileSystem_init 2)
       [Mkdir ''/a'', CreateFile ''/a/f'', Delete ''/a/f'', CreateFile ''/g'']))
   \<and> (\<exists>names. walks (run (FileSystem_init 2)
       [Mkdir ''/a'', CreateFile ''/a/f'', Delete ''/a/f'', CreateFile ''/g''])
     (root (run (FileSystem_init 2)
       [Mkdir ''/a'', CreateFile ''/a/f'', Delete ''/a/f'', CreateFile ''/g''])) names 4)
   \<and> removed_dir (run (FileSystem_init 4) [Mkdir ''/a'', Mkdir ''/a/b'', Delete ''/a'']) 2
   \<and> walks (run (FileSystem_init 4) [Mkdir ''/a'', Mkdir ''/a/b'', Delete ''/a'']) 2 [''b''] 3
   \<and> 3 \<in> dom (inodes (run (FileSystem_init 4) [Mkdir ''/a'', Mkdir ''/a/b'', Delete ''/a'']))
   \<and> (\<forall>names. \<not> walks (run (FileSystem_init 4) [Mkdir ''/a'', Mkdir ''/a/b'', Delete ''/a''])
          (root (run (FileSystem_init 4) [Mkdir ''/a'', Mkdir ''/a/b'', Delete ''/a''])) names 3)
   \<and> (\<exists>cs1 path cs2 p name.
         [Mkdir ''/a'', Mkdir ''/a/b'', Delete ''/a''] = cs1 @ Delete path # cs2
         \<and> fst (delete (run (FileSystem_init 4) cs1) path) = Inr True
         \<and> split_parent (run (FileSystem_init 4) cs1) path = Inr (Some p, name)
         \<and> edge (run (FileSystem_init 4) cs1) p name 2
         \<and> dir_entries (run (FileSystem_init 4) cs1) 2 \<noteq> None)
   \<and> no_orphaning (run (FileSystem_init 4) [Mkdir ''/a'', Mkdir ''/a/b'', Delete ''/a''])
        [Mkdir ''/c'', CreateFile ''/c/f'']
   \<and> 5 \<in> dom (inodes (run (run (FileSystem_init 4) [Mkdir ''/a'', Mkdir ''/a/b'', Delete ''/a''])
                        [Mkdir ''/c'', CreateFile ''/c/f'']))
   \<and> 5 \<notin> dom (inodes (run (FileSystem_init 4) [Mkdir ''/a'', Mkdir ''/a/b'', Delete ''/a'']))
   \<and> (\<exists>names. walks (run (run (FileSystem_init 4) [Mkdir ''/a'', Mkdir ''/a/b'', Delete ''/a''])
                        [Mkdir ''/c'', CreateFile ''/c/f''])
          (root (run (run (FileSystem_init 4) [Mkdir ''/a'', Mkdir ''/a/b'', Delete ''/a''])
                  [Mkdir ''/c'', CreateFile ''/c/f''])) names 5)
   \<and> fst (delete (run (FileSystem_init 4) [Mkdir ''/a'', Mkdir ''/a/b'', Mkdir ''/c'']) ''/a'')
        = Inr True
   \<and> split_parent (run (FileSystem_init 4) [Mkdir ''/a'', Mkdir ''/a/b'', Mkdir ''/c'']) ''/a''
        = Inr (Some 1, ''a'')
   \<and> edge (run (FileSystem_init 4) [Mkdir ''/a'', Mkdir ''/a/b'', Mkdir ''/c'']) 1 ''a'' 2
   \<and> walks (run (FileSystem_init 4) [Mkdir ''/a'', Mkdir ''/a/b'', Mkdir ''/c'']) 2 [''b''] 3
   \<and> 3 \<in> dom (inodes (snd (delete
          (run (FileSystem_init 4) [Mkdir ''/a'', Mkdir ''/a/b'', Mkdir ''/c'']) ''/a'')))
   \<and> (\<forall>names. \<not> walks
          (snd (delete (run (FileSystem_init 4) [Mkdir ''/a'', Mkdir ''/a/b'', Mkdir ''/c''])
             ''/a''))
          (root (snd (delete (run (FileSystem_init 4) [Mkdir ''/a'', Mkdir ''/a/b'', Mkdir ''/c''])
             ''/a''))) names 3)
   \<and> walks (run (FileSystem_init 4) [Mkdir ''/a'', Mkdir ''/a/b'', Mkdir ''/c''])
        (root (run (FileSystem_init 4) [Mkdir ''/a'', Mkdir ''/a/b'', Mkdir ''/c''])) [''c''] 4
   \<and> (walks
          (snd (delete (run (FileSystem_init 4) [Mkdir ''/a'', Mkdir ''/a/b'', Mkdir ''/c''])
             ''/a''))
          (root (snd (delete (run (FileSystem_init 4) [Mkdir ''/a'', Mkdir ''/a/b'', Mkdir ''/c''])
             ''/a''))) [''c''] 4
        \<or> (\<exists>below. walks (run (FileSystem_init 4) [Mkdir ''/a'', Mkdir ''/a/b'', Mkdir ''/c''])
               2 below 4))"
proof -
  let ?A = "run (FileSystem_init 2)
       [Mkdir ''/a'', CreateFile ''/a/f'', Delete ''/a/f'', CreateFile ''/g'']"
  let ?B = "run (FileSystem_init 4) [Mkdir ''/a'', Mkdir ''/a/b'', Delete ''/a'']"
  let ?BB = "run ?B [Mkdir ''/c'', CreateFile ''/c/f'']"
  let ?C = "run (FileSystem_init 4) [Mkdir ''/a'', Mkdir ''/a/b'', Mkdir ''/c'']"
  let ?D = "snd (delete ?C ''/a'')"
  note tA = tree_chains [where n = 2
      and cs = "[Mkdir ''/a'', CreateFile ''/a/f'', Delete ''/a/f'', CreateFile ''/g'']"
      and cs' = "[]" and path = "[]" and p = 0 and name = "[]" and c = 0, OF refl]
  note tB = tree_chains [where n = 4
      and cs = "[Mkdir ''/a'', Mkdir ''/a/b'', Delete ''/a'']"
      and cs' = "[Mkdir ''/c'', CreateFile ''/c/f'']"
      and path = "[]" and p = 0 and name = "[]" and c = 0, OF refl]
  note tC = tree_chains [where n = 4
      and cs = "[Mkdir ''/a'', Mkdir ''/a/b'', Mkdir ''/c'']" and cs' = "[]"
      and path = "''/a''" and p = 1 and name = "''a''" and c = 2, OF refl]
  note tA3 = tA [THEN conjunct2, THEN conjunct2, THEN conjunct1]
  note tB4 = tB [THEN conjunct2, THEN conjunct2, THEN conjunct2]
  note tB5 = tB4 [THEN conjunct2, THEN conjunct1]
  note tB6 = tB4 [THEN conjunct2, THEN conjunct2, THEN conjunct1]
  note tB7 = tB4 [THEN conjunct2, THEN conjunct2, THEN conjunct2, THEN conjunct1]
  note tC8 = tC [THEN conjunct2, THEN conjunct2, THEN conjunct2, THEN conjunct2,
      THEN conjunct2, THEN conjunct2, THEN conjunct2]
  from tA [THEN conjunct1] tA3 fs_chain_eval
  have 1: "walks ?A (root ?A) [''g''] 4 \<and> 4 \<in> dom (inodes ?A)
      \<and> (\<exists>names. walks ?A (root ?A) names 4)" by blast
  from tB5 fs_orphan_run_eval(1,2)
  have 2: "\<forall>names. \<not> walks ?B (root ?B) names 3" by blast
  from tB6 fs_orphan_run_eval(1)
  have 3: "\<exists>cs1 path cs2 p name.
         [Mkdir ''/a'', Mkdir ''/a/b'', Delete ''/a''] = cs1 @ Delete path # cs2
         \<and> fst (delete (run (FileSystem_init 4) cs1) path) = Inr True
         \<and> split_parent (run (FileSystem_init 4) cs1) path = Inr (Some p, name)
         \<and> edge (run (FileSystem_init 4) cs1) p name 2
         \<and> dir_entries (run (FileSystem_init 4) cs1) 2 \<noteq> None" by blast
  from tB7 fs_orphan_run_eval(4,5,6)
  have 4: "\<exists>names. walks ?BB (root ?BB) names 5" by blast
  from tC8 fs_orphan_delete_eval(1,2,3,4)
  have 5: "3 \<in> dom (inodes ?D) \<and> (\<forall>names. \<not> walks ?D (root ?D) names 3)" by blast
  from tC8 fs_orphan_delete_eval(1,2,3,5)
  have 6: "walks ?D (root ?D) [''c''] 4 \<or> (\<exists>below. walks ?C 2 below 4)" by blast
  from 1 2 3 4 5 6 fs_orphan_run_eval fs_orphan_delete_eval
  show ?thesis by (intro conjI) blast+
qed

section \<open>One entry per name\<close>

lemma mkdir_answer:
  assumes "split_parent fs path = Inr (parent, name)"
  shows "fst (mkdir fs path)
       = Inr (\<exists>p ents. parent = Some p \<and> dir_entries fs p = Some ents \<and> name \<notin> fst ` set ents)"
    and "fst (mkdir fs path) \<noteq> Inr True \<Longrightarrow> mkdir fs path = (Inr False, fs)"
  using assms
  by (auto simp: mkdir_def dir_entries_def alloc_inode_id_def Let_def
      split: option.splits INode.splits)

lemma create_file_answer:
  assumes "split_parent fs path = Inr (parent, name)"
  shows "fst (create_file fs path)
       = Inr (\<exists>p ents. parent = Some p \<and> dir_entries fs p = Some ents \<and> name \<notin> fst ` set ents)"
    and "fst (create_file fs path) \<noteq> Inr True \<Longrightarrow> create_file fs path = (Inr False, fs)"
  using assms
  by (auto simp: create_file_def dir_entries_def alloc_inode_id_def Let_def
      split: option.splits INode.splits)

lemma split_parent_added:
  assumes inv: "tree_inv fs" and add: "entry_added fs fs' p name node"
    and node: "node = File_init (next_inode_id fs) \<or> node = Directory_init (next_inode_id fs)"
    and sp: "split_parent fs path = Inr (Some q, nm)"
  shows "split_parent fs' path = Inr (Some q, nm)"
proof -
  note e = added_edge [OF inv add node]
  have inv': "tree_inv fs'" by (rule tree_inv_added [OF inv add node])
  from add have r: "root fs' = root fs" by (auto elim: entry_added_fields)
  have mono: "walks fs a ns z \<Longrightarrow> walks fs' a ns z" for a ns z
    by (rule walks_mono [OF inv inv']) (simp_all add: e(1))
  have t: "traverse fs' pp = Some q" if "traverse fs pp = Some q" for pp
    using that mono [of "root fs" "path_parts pp" q] r by (simp add: traverse_def walks_iff)
  from sp show ?thesis
    by (auto simp: split_parent_def t split: sum.splits prod.splits)
qed

text \<open>
  Claim C7 (uniqueness of a name under a parent). After any run of operations on the
  constructed file system, take two calls, each \<open>mkdir\<close> or \<open>create_file\<close>, whose paths
  split into the same parent inode and the same name. When the first call returns True,
  the second returns False and leaves the state as the first left it. When the first
  call does not return True, it returns False and leaves the state as it was, and the
  second call does not return True either. Finally a call whose parent path does not
  resolve, or resolves to something that is no directory, returns False and changes
  nothing.
\<close>

theorem create_unique:
  assumes "fs = run (FileSystem_init n) cs"
    and "op1 = mkdir \<or> op1 = create_file" and "op2 = mkdir \<or> op2 = create_file"
    and "split_parent fs path1 = Inr (Some p, name)"
    and "split_parent fs path2 = Inr (Some p, name)"
  shows "(fst (op1 fs path1) = Inr True
            \<longrightarrow> op2 (snd (op1 fs path1)) path2 = (Inr False, snd (op1 fs path1)))
     \<and> (fst (op1 fs path1) \<noteq> Inr True
            \<longrightarrow> op1 fs path1 = (Inr False, fs) \<and> op2 (snd (op1 fs path1)) path2 = (Inr False, fs))
     \<and> (split_parent fs path3 = Inr (None, name3)
          \<or> (\<exists>q. split_parent fs path3 = Inr (Some q, name3) \<and> dir_entries fs q = None)
            \<longrightarrow> op1 fs path3 = (Inr False, fs))"
proof -
  have inv: "tree_inv fs" unfolding assms(1) by (rule tree_inv_run [OF tree_inv_init])
  have ans: "fst (op fs' path) = Inr (\<exists>p ents. parent = Some p \<and> dir_entries fs' p = Some ents
                 \<and> nm \<notin> fst ` set ents)
      \<and> (fst (op fs' path) \<noteq> Inr True \<longrightarrow> op fs' path = (Inr False, fs'))"
    if "op = mkdir \<or> op = create_file" "split_parent fs' path = Inr (parent, nm)"
    for op fs' path parent nm
    using that mkdir_answer [of fs' path parent nm] create_file_answer [of fs' path parent nm]
    by blast
  have res: "snd (op fs path1) = fs \<and> fst (op fs path1) \<noteq> Inr True
      \<or> (\<exists>node. (node = File_init (next_inode_id fs) \<or> node = Directory_init (next_inode_id fs))
            \<and> entry_added fs (snd (op fs path1)) p name node)"
    if "op = mkdir \<or> op = create_file" for op
    using that mkdir_result [of fs path1] create_file_result [of fs path1] assms(4) by auto
  have 1: "op2 (snd (op1 fs path1)) path2 = (Inr False, snd (op1 fs path1))"
    if ok: "fst (op1 fs path1) = Inr True"
  proof -
    let ?fs' = "snd (op1 fs path1)"
    from res [OF assms(2)] ok obtain node where
      node: "node = File_init (next_inode_id fs) \<or> node = Directory_init (next_inode_id fs)"
      and add: "entry_added fs ?fs' p name node" by auto
    have sp': "split_parent ?fs' path2 = Inr (Some p, name)"
      by (rule split_parent_added [OF inv add node assms(5)])
    from added_edge(4) [OF inv add node] obtain ents where
      "dir_entries ?fs' p = Some (ents @ [(name, next_inode_id fs)])" by blast
    then have "\<not> (\<exists>q es. Some p = Some q \<and> dir_entries ?fs' q = Some es \<and> name \<notin> fst ` set es)"
      by auto
    with ans [OF assms(3) sp'] show ?thesis by auto
  qed
  have 2: "op1 fs path1 = (Inr False, fs) \<and> op2 (snd (op1 fs path1)) path2 = (Inr False, fs)"
    if no: "fst (op1 fs path1) \<noteq> Inr True"
  proof -
    from ans [OF assms(2,4)] no have a: "op1 fs path1 = (Inr False, fs)"
      and "\<not> (\<exists>q ents. Some p = Some q \<and> dir_entries fs q = Some ents \<and> name \<notin> fst ` set ents)"
      by auto
    with ans [OF assms(3,5)] have "op2 fs path2 = (Inr False, fs)" by auto
    with a show ?thesis by simp
  qed
  have 3: "op1 fs path3 = (Inr False, fs)"
    if h: "split_parent fs path3 = Inr (None, name3)
          \<or> (\<exists>q. split_parent fs path3 = Inr (Some q, name3) \<and> dir_entries fs q = None)"
  proof -
    from h obtain parent where sp: "split_parent fs path3 = Inr (parent, name3)"
      and "\<not> (\<exists>q ents. parent = Some q \<and> dir_entries fs q = Some ents \<and> name3 \<notin> fst ` set ents)"
      by auto
    with ans [OF assms(2) sp] show ?thesis by auto
  qed
  from 1 2 3 show ?thesis by blast
qed

lemma fs_unique_eval:
  "split_parent (run (FileSystem_init 2) []) ''/a'' = Inr (Some 1, ''a'')"
  "split_parent (run (FileSystem_init 2) []) ''//a'' = Inr (Some 1, ''a'')"
  "split_parent (run (FileSystem_init 2) []) ''/x/y'' = Inr (None, ''y'')"
  "fst (mkdir (run (FileSystem_init 2) []) ''/a'') = Inr True"
  by (simp_all add: fs_eval)

theorem create_unique_witness:
  "create_file (snd (mkdir (run (FileSystem_init 2) []) ''/a'')) ''//a''
     = (Inr False, snd (mkdir (run (FileSystem_init 2) []) ''/a''))
   \<and> mkdir (run (FileSystem_init 2) []) ''/x/y'' = (Inr False, run (FileSystem_init 2) [])"
  using create_unique [OF refl _ _ fs_unique_eval(1) fs_unique_eval(2),
      of mkdir create_file "''/x/y''" "''y''"] fs_unique_eval(3) fs_unique_eval(4)
  by simp

section \<open>The block invariant\<close>

lemma block_invD:
  assumes "block_inv fs"
  shows "distinct (free_blocks (block_mgr fs))"
    and "a \<in> dom (inodes fs) \<Longrightarrow> blocks_of fs a = Some bl \<Longrightarrow>
           distinct bl \<and> set bl \<inter> set (free_blocks (block_mgr fs)) = {}"
    and "a \<in> dom (inodes fs) \<Longrightarrow> b \<in> dom (inodes fs) \<Longrightarrow> a \<noteq> b \<Longrightarrow>
           blocks_of fs a = Some bla \<Longrightarrow> blocks_of fs b = Some blb \<Longrightarrow> set bla \<inter> set blb = {}"
  using assms unfolding block_inv_def by blast+

lemma block_invI:
  assumes "distinct (free_blocks (block_mgr fs))"
    and "\<And>a bl. a \<in> dom (inodes fs) \<Longrightarrow> blocks_of fs a = Some bl \<Longrightarrow>
           distinct bl \<and> set bl \<inter> set (free_blocks (block_mgr fs)) = {}"
    and "\<And>a b bla blb. a \<in> dom (inodes fs) \<Longrightarrow> b \<in> dom (inodes fs) \<Longrightarrow> a \<noteq> b \<Longrightarrow>
           blocks_of fs a = Some bla \<Longrightarrow> blocks_of fs b = Some blb \<Longrightarrow> set bla \<inter> set blb = {}"
  shows "block_inv fs"
  unfolding block_inv_def using assms by blast

lemma block_inv_init: "block_inv (FileSystem_init n)"
  by (rule block_invI)
     (auto simp: FileSystem_init_def alloc_inode_id_def Directory_init_def blocks_of_def
        BlockManager_init_def split: if_splits)

lemma block_inv_added:
  assumes inv: "tree_inv fs" and binv: "block_inv fs"
    and add: "entry_added fs fs' p name node"
    and node: "node = File_init (next_inode_id fs) \<or> node = Directory_init (next_inode_id fs)"
  shows "block_inv fs'"
proof -
  let ?i = "next_inode_id fs"
  from add obtain pid psz pbl ents where
    p: "objs fs p = Some (Directory pid psz pbl ents)"
    and o: "objs fs' = (objs fs)(?i \<mapsto> node, p \<mapsto> Directory pid psz pbl (ents @ [(name, ?i)]))"
    and i: "inodes fs' = (inodes fs)(?i \<mapsto> ?i)"
    and bm: "block_mgr fs' = block_mgr fs"
    by (rule entry_added_fields)
  have pi: "p \<noteq> ?i" using added_edge(3) [OF inv add node] by simp
  have bn: "blocks node = []" using node by (auto simp: File_init_def Directory_init_def)
  have b: "blocks_of fs' a = (if a = ?i then Some [] else blocks_of fs a)" for a
    using o p pi bn by (auto simp: blocks_of_def)
  have fresh: "?i \<notin> dom (inodes fs)"
    using added_edge(2) [OF inv add node] tree_invD(6) [OF inv, of ?i] by auto
  show ?thesis
  proof (rule block_invI)
    show "distinct (free_blocks (block_mgr fs'))" using block_invD(1) [OF binv] bm by simp
    show "distinct bl \<and> set bl \<inter> set (free_blocks (block_mgr fs')) = {}"
      if "a \<in> dom (inodes fs')" "blocks_of fs' a = Some bl" for a bl
    proof (cases "a = ?i")
      case True
      with that b show ?thesis by simp
    next
      case False
      with that i b have "a \<in> dom (inodes fs)" "blocks_of fs a = Some bl" by auto
      from block_invD(2) [OF binv this] bm show ?thesis by simp
    qed
    show "set bla \<inter> set blb = {}"
      if "a \<in> dom (inodes fs')" "b \<in> dom (inodes fs')" "a \<noteq> b"
        "blocks_of fs' a = Some bla" "blocks_of fs' b = Some blb" for a b bla blb
    proof (cases "a = ?i \<or> b = ?i")
      case True
      with that b show ?thesis by auto
    next
      case False
      with that i b have "a \<in> dom (inodes fs)" "b \<in> dom (inodes fs)"
        "blocks_of fs a = Some bla" "blocks_of fs b = Some blb" by auto
      from block_invD(3) [OF binv this(1,2) that(3) this(3,4)] show ?thesis .
    qed
  qed
qed

lemma block_inv_removed:
  assumes inv: "tree_inv fs" and binv: "block_inv fs"
    and rem: "entry_removed fs fs' p name c node" and c: "c \<in> dom (inodes fs)"
  shows "block_inv fs'"
proof -
  from rem obtain pid psz pbl ents where
    p: "objs fs p = Some (Directory pid psz pbl ents)"
    and cn: "objs fs c = Some node"
    and o: "objs fs' = (objs fs)(p \<mapsto> Directory pid psz pbl (filter (\<lambda>e. fst e \<noteq> name) ents))"
    and f: "free_blocks (block_mgr fs') = (if is_dir node then free_blocks (block_mgr fs)
                                   else free_blocks (block_mgr fs) @ blocks node)"
    and i: "inodes fs' = (inodes fs)(c := None)"
    by (rule entry_removed_fields)
  have b: "blocks_of fs' a = blocks_of fs a" for a
    using o p by (auto simp: blocks_of_def)
  have bc: "blocks_of fs c = Some (blocks node)" using cn by (simp add: blocks_of_def)
  note c2 = block_invD(2) [OF binv c bc]
  have sub: "set (free_blocks (block_mgr fs'))
      \<subseteq> set (free_blocks (block_mgr fs)) \<union> set (blocks node)" using f by auto
  show ?thesis
  proof (rule block_invI)
    show "distinct (free_blocks (block_mgr fs'))"
      using f block_invD(1) [OF binv] c2 by auto
    show "distinct bl \<and> set bl \<inter> set (free_blocks (block_mgr fs')) = {}"
      if "a \<in> dom (inodes fs')" "blocks_of fs' a = Some bl" for a bl
    proof -
      from that i b have a: "a \<in> dom (inodes fs)" "a \<noteq> c" "blocks_of fs a = Some bl"
        by (auto split: if_splits)
      from block_invD(2) [OF binv a(1,3)] block_invD(3) [OF binv a(1) c a(2) a(3) bc] sub
      show ?thesis by blast
    qed
    show "set bla \<inter> set blb = {}"
      if "a \<in> dom (inodes fs')" "b \<in> dom (inodes fs')" "a \<noteq> b"
        "blocks_of fs' a = Some bla" "blocks_of fs' b = Some blb" for a b bla blb
    proof -
      from that i b have "a \<in> dom (inodes fs)" "b \<in> dom (inodes fs)"
        "blocks_of fs a = Some bla" "blocks_of fs b = Some blb" by (auto split: if_splits)
      from block_invD(3) [OF binv this(1,2) that(3) this(3,4)] show ?thesis .
    qed
  qed
qed

lemma block_inv_alloc:
  assumes binv: "block_inv fs" and a: "a \<in> dom (inodes fs)"
    and oa: "objs fs a = Some (File iid sz bl)"
    and o: "objs fs' = (objs fs)(a \<mapsto> File iid sz' (bl @ new))"
    and f: "free_blocks (block_mgr fs) = free_blocks (block_mgr fs') @ rev new"
    and i: "inodes fs' = inodes fs"
  shows "block_inv fs'"
proof -
  have b: "blocks_of fs' x = (if x = a then Some (bl @ new) else blocks_of fs x)" for x
    using o by (simp add: blocks_of_def)
  have ba: "blocks_of fs a = Some bl" using oa by (simp add: blocks_of_def)
  note d = block_invD(1) [OF binv, unfolded f]
  from d have dn: "distinct new" "distinct (free_blocks (block_mgr fs'))"
    "set new \<inter> set (free_blocks (block_mgr fs')) = {}" by auto
  have fs: "set (free_blocks (block_mgr fs)) = set (free_blocks (block_mgr fs')) \<union> set new"
    unfolding f by auto
  note a2 = block_invD(2) [OF binv a ba]
  show ?thesis
  proof (rule block_invI)
    show "distinct (free_blocks (block_mgr fs'))" by (rule dn(2))
    show "distinct bl' \<and> set bl' \<inter> set (free_blocks (block_mgr fs')) = {}"
      if "x \<in> dom (inodes fs')" "blocks_of fs' x = Some bl'" for x bl'
    proof (cases "x = a")
      case True
      with that b have "bl' = bl @ new" by simp
      with a2 dn fs show ?thesis by auto
    next
      case False
      with that b i have "x \<in> dom (inodes fs)" "blocks_of fs x = Some bl'" by simp_all
      from block_invD(2) [OF binv this] fs show ?thesis by auto
    qed
    show "set bla \<inter> set blb = {}"
      if h: "x \<in> dom (inodes fs')" "y \<in> dom (inodes fs')" "x \<noteq> y"
        "blocks_of fs' x = Some bla" "blocks_of fs' y = Some blb" for x y bla blb
    proof -
      have one: "set (bl @ new) \<inter> set blz = {}"
        if "z \<in> dom (inodes fs)" "z \<noteq> a" "blocks_of fs z = Some blz" for z blz
        using block_invD(3) [OF binv a that(1) that(2) [symmetric] ba that(3)]
          block_invD(2) [OF binv that(1,3)] fs by auto
      show ?thesis
      proof (cases "x = a")
        case True
        with h b i have "bla = bl @ new" "y \<in> dom (inodes fs)" "y \<noteq> a"
          "blocks_of fs y = Some blb" by auto
        with one [of y blb] show ?thesis by simp
      next
        case False
        show ?thesis
        proof (cases "y = a")
          case True
          with h b i False have "blb = bl @ new" "x \<in> dom (inodes fs)" "x \<noteq> a"
            "blocks_of fs x = Some bla" by auto
          with one [of x bla] show ?thesis by auto
        next
          case y: False
          with False h b i have "x \<in> dom (inodes fs)" "y \<in> dom (inodes fs)"
            "blocks_of fs x = Some bla" "blocks_of fs y = Some blb" by simp_all
          from block_invD(3) [OF binv this(1,2) h(3) this(3,4)] show ?thesis .
        qed
      qed
    qed
  qed
qed

lemma write_file_blocks:
  "snd (write_file fs path d off) = fs
   \<or> (\<exists>a iid sz bl sz' new. traverse fs path = Some a \<and> objs fs a = Some (File iid sz bl)
         \<and> objs (snd (write_file fs path d off)) = (objs fs)(a \<mapsto> File iid sz' (bl @ new))
         \<and> free_blocks (block_mgr fs)
             = free_blocks (block_mgr (snd (write_file fs path d off))) @ rev new
         \<and> inodes (snd (write_file fs path d off)) = inodes fs)"
proof (cases "\<exists>a iid sz bl. traverse fs path = Some a \<and> objs fs a = Some (File iid sz bl)")
  case False
  then have "snd (write_file fs path d off) = fs"
    by (auto simp: write_file_def split: option.splits INode.splits)
  then show ?thesis ..
next
  case True
  then obtain a iid sz bl where t: "traverse fs path = Some a"
    and o: "objs fs a = Some (File iid sz bl)" by blast
  obtain ok bm' bl' dbs' where al:
    "alloc_loop (off + int (length d)) (block_mgr fs) bl (data_blocks fs) = (ok, bm', bl', dbs')"
    by (cases "alloc_loop (off + int (length d)) (block_mgr fs) bl (data_blocks fs)") auto
  from alloc_loop_result [OF al] obtain new where n: "bl' = bl @ new"
    "free_blocks (block_mgr fs) = free_blocks bm' @ rev new" by blast
  note w = write_file_File [OF t o al]
  let ?fs' = "snd (write_file fs path d off)"
  have bm: "block_mgr ?fs' = bm'" and i: "inodes ?fs' = inodes fs"
    using w by (auto split: sum.splits)
  have "\<exists>sz'. objs ?fs' = (objs fs)(a \<mapsto> File iid sz' bl')"
  proof (cases "ok \<and> (\<exists>u. fst (write_bytes bl' dbs' off d) = Inr u)")
    case True
    with w have "objs ?fs' = (objs fs)(a \<mapsto> File iid (max sz (off + int (length d))) bl')"
      by auto
    then show ?thesis ..
  next
    case False
    with w have "objs ?fs' = (objs fs)(a \<mapsto> File iid sz bl')"
      by (cases "fst (write_bytes bl' dbs' off d)") auto
    then show ?thesis ..
  qed
  with t o n bm i show ?thesis by auto
qed

lemma block_inv_exec:
  assumes inv: "tree_inv fs" and binv: "block_inv fs"
  shows "block_inv (exec fs c)"
proof (cases c)
  case (Mkdir path)
  from mkdir_result [of fs path] binv Mkdir show ?thesis
    by (auto intro: block_inv_added [OF inv binv])
next
  case (CreateFile path)
  from create_file_result [of fs path] binv CreateFile show ?thesis
    by (auto intro: block_inv_added [OF inv binv])
next
  case (Write path d off)
  from write_file_blocks [of fs path d off] show ?thesis
  proof
    assume "snd (write_file fs path d off) = fs"
    with binv Write show ?thesis by simp
  next
    let ?fs' = "snd (write_file fs path d off)"
    assume "\<exists>a iid sz bl sz' new. traverse fs path = Some a \<and> objs fs a = Some (File iid sz bl)
         \<and> objs ?fs' = (objs fs)(a \<mapsto> File iid sz' (bl @ new))
         \<and> free_blocks (block_mgr fs) = free_blocks (block_mgr ?fs') @ rev new
         \<and> inodes ?fs' = inodes fs"
    then obtain a iid sz bl sz' new where t: "traverse fs path = Some a"
      and h: "objs fs a = Some (File iid sz bl)"
        "objs ?fs' = (objs fs)(a \<mapsto> File iid sz' (bl @ new))"
        "free_blocks (block_mgr fs) = free_blocks (block_mgr ?fs') @ rev new"
        "inodes ?fs' = inodes fs" by blast
    from block_inv_alloc [OF binv traverse_registered [OF inv t] h] Write
    show ?thesis by simp
  qed
next
  case (Read path n off)
  with binv show ?thesis by (simp add: read_def split: option.splits INode.splits sum.splits)
next
  case (Ls path)
  with binv show ?thesis by (simp add: ls_def split: option.splits INode.splits)
next
  case (Delete path)
  from delete_result [OF inv, of path] show ?thesis
  proof
    assume "snd (delete fs path) = fs \<and> fst (delete fs path) \<noteq> Inr True"
    with binv Delete show ?thesis by simp
  next
    assume "\<exists>p name c node. split_parent fs path = Inr (Some p, name)
         \<and> fst (delete fs path) = Inr True
         \<and> entry_removed fs (snd (delete fs path)) p name c node"
    then obtain p name c node where sp: "split_parent fs path = Inr (Some p, name)"
      and rem: "entry_removed fs (snd (delete fs path)) p name c node" by blast
    have "c \<in> dom (inodes fs)"
      by (rule tree_invD(8) [OF inv split_parent_registered [OF inv sp]
            removed_edge(1) [OF inv rem]])
    from block_inv_removed [OF inv binv rem this] Delete show ?thesis by simp
  qed
qed

lemma invs_run:
  "tree_inv fs \<Longrightarrow> block_inv fs \<Longrightarrow> tree_inv (run fs cs) \<and> block_inv (run fs cs)"
  unfolding run_def
proof (induction cs arbitrary: fs)
  case Nil
  then show ?case by simp
next
  case (Cons c cs)
  from Cons.prems have "tree_inv (exec fs c)" "block_inv (exec fs c)"
    by (simp_all add: tree_inv_exec block_inv_exec)
  from Cons.IH [OF this] show ?case by simp
qed

section \<open>Reading back what was written\<close>

lemma pos_in_range:
  assumes "0 \<le> j" and "j < int (length bl) * int BLOCK_SIZE"
  shows "nat (j div int BLOCK_SIZE) < length bl" and "0 \<le> j div int BLOCK_SIZE"
    and "j div int BLOCK_SIZE < int (length bl)"
    and "0 \<le> j mod int BLOCK_SIZE" and "nat (j mod int BLOCK_SIZE) < BLOCK_SIZE"
proof -
  have bs: "0 < int BLOCK_SIZE" by (simp add: BLOCK_SIZE_def)
  from int_div_bounds [OF bs assms] show "0 \<le> j div int BLOCK_SIZE"
    "j div int BLOCK_SIZE < int (length bl)" by simp_all
  then show "nat (j div int BLOCK_SIZE) < length bl" by simp
  show "0 \<le> j mod int BLOCK_SIZE" using pos_mod_sign [OF bs] by simp
  show "nat (j mod int BLOCK_SIZE) < BLOCK_SIZE"
    using pos_mod_bound [OF bs, of j] pos_mod_sign [OF bs, of j] by simp
qed

lemma pos_distinct:
  assumes "0 \<le> j" and "0 \<le> i" and "j \<noteq> (i::int)"
    and "nat (j div int BLOCK_SIZE) = nat (i div int BLOCK_SIZE)"
  shows "nat (j mod int BLOCK_SIZE) \<noteq> nat (i mod int BLOCK_SIZE)"
proof
  assume m: "nat (j mod int BLOCK_SIZE) = nat (i mod int BLOCK_SIZE)"
  have bs: "0 < int BLOCK_SIZE" by (simp add: BLOCK_SIZE_def)
  have "0 \<le> j div int BLOCK_SIZE" "0 \<le> i div int BLOCK_SIZE"
    using assms(1,2) bs by (simp_all add: pos_imp_zdiv_nonneg_iff)
  with assms(4) have d: "j div int BLOCK_SIZE = i div int BLOCK_SIZE" by simp
  from m pos_mod_sign [OF bs, of j] pos_mod_sign [OF bs, of i]
  have "j mod int BLOCK_SIZE = i mod int BLOCK_SIZE" by simp
  with d have "j = i" by (metis div_mult_mod_eq)
  with assms(3) show False by simp
qed

lemma write_bytes_step:
  assumes ok: "blocks_ok bl dbs" and "0 \<le> idx" and "idx < int (length bl) * int BLOCK_SIZE"
  shows "\<exists>blk. dbs (bl ! nat (idx div int BLOCK_SIZE)) = Some blk
       \<and> length (data blk) = BLOCK_SIZE
       \<and> write_bytes bl dbs idx (x # rest)
           = write_bytes bl
               (dbs(bl ! nat (idx div int BLOCK_SIZE) \<mapsto>
                  blk\<lparr>data := (data blk)[nat (idx mod int BLOCK_SIZE) := x]\<rparr>))
               (idx + 1) rest"
proof -
  note r = pos_in_range [OF assms(2,3)]
  let ?b = "bl ! nat (idx div int BLOCK_SIZE)"
  from r(1) have "?b \<in> set bl" by simp
  with ok obtain blk where blk: "dbs ?b = Some blk" "length (data blk) = BLOCK_SIZE"
    unfolding blocks_ok_def by blast
  have g: "list_getitem bl (idx div int BLOCK_SIZE) = Inr ?b"
    using r(2,3) by (simp add: list_getitem_def)
  have s: "list_setitem (data blk) (idx mod int BLOCK_SIZE) x
       = Inr ((data blk)[nat (idx mod int BLOCK_SIZE) := x])"
    using r(4,5) blk(2) by (simp add: list_setitem_def)
  from g s blk show ?thesis by simp
qed

lemma blocks_ok_upd:
  assumes "blocks_ok bl dbs" and "dbs b = Some blk" and "length bytes = length (data blk)"
  shows "blocks_ok bl (dbs(b \<mapsto> blk\<lparr>data := bytes\<rparr>))"
  using assms unfolding blocks_ok_def by auto

lemma cell_upd_same:
  assumes "nat (idx mod int BLOCK_SIZE) < length (data blk)"
  shows "cell bl (dbs(bl ! nat (idx div int BLOCK_SIZE) \<mapsto>
            blk\<lparr>data := (data blk)[nat (idx mod int BLOCK_SIZE) := x]\<rparr>)) idx = Some x"
  using assms by (simp add: cell_def)

lemma cell_upd_other:
  assumes ok: "blocks_ok bl dbs" and "0 \<le> j" and "j < int (length bl) * int BLOCK_SIZE"
    and "0 \<le> idx" and "idx < int (length bl) * int BLOCK_SIZE" and "j \<noteq> idx"
    and blk: "dbs (bl ! nat (idx div int BLOCK_SIZE)) = Some blk"
  shows "cell bl (dbs(bl ! nat (idx div int BLOCK_SIZE) \<mapsto>
            blk\<lparr>data := (data blk)[nat (idx mod int BLOCK_SIZE) := x]\<rparr>)) j = cell bl dbs j"
proof (cases "nat (j div int BLOCK_SIZE) = nat (idx div int BLOCK_SIZE)")
  case True
  from pos_distinct [OF assms(2,4,6) True]
  have "nat (idx mod int BLOCK_SIZE) \<noteq> nat (j mod int BLOCK_SIZE)" by simp
  with True blk show ?thesis by (simp add: cell_def)
next
  case False
  from ok have "distinct bl" by (simp add: blocks_ok_def)
  with False pos_in_range(1) [OF assms(2,3)] pos_in_range(1) [OF assms(4,5)]
  have "bl ! nat (j div int BLOCK_SIZE) \<noteq> bl ! nat (idx div int BLOCK_SIZE)"
    by (simp add: nth_eq_iff_index_eq)
  then show ?thesis by (simp add: cell_def)
qed

lemma write_bytes_frame:
  "blocks_ok bl dbs \<Longrightarrow> 0 \<le> j \<Longrightarrow> j < idx
     \<Longrightarrow> idx + int (length d) \<le> int (length bl) * int BLOCK_SIZE
     \<Longrightarrow> cell bl (snd (write_bytes bl dbs idx d)) j = cell bl dbs j"
proof (induction d arbitrary: dbs idx)
  case Nil
  show ?case by simp
next
  case (Cons x d)
  from Cons.prems have r: "0 \<le> idx" "idx < int (length bl) * int BLOCK_SIZE"
    "j < int (length bl) * int BLOCK_SIZE" "j \<noteq> idx" by simp_all
  from write_bytes_step [OF Cons.prems(1) r(1,2), of x d] obtain blk where
    blk: "dbs (bl ! nat (idx div int BLOCK_SIZE)) = Some blk" "length (data blk) = BLOCK_SIZE"
    and w: "write_bytes bl dbs idx (x # d)
           = write_bytes bl
               (dbs(bl ! nat (idx div int BLOCK_SIZE) \<mapsto>
                  blk\<lparr>data := (data blk)[nat (idx mod int BLOCK_SIZE) := x]\<rparr>))
               (idx + 1) d" by blast
  let ?dbs1 = "dbs(bl ! nat (idx div int BLOCK_SIZE) \<mapsto>
                  blk\<lparr>data := (data blk)[nat (idx mod int BLOCK_SIZE) := x]\<rparr>)"
  have ok1: "blocks_ok bl ?dbs1" by (rule blocks_ok_upd [OF Cons.prems(1) blk(1)]) simp
  have "cell bl (snd (write_bytes bl ?dbs1 (idx + 1) d)) j = cell bl ?dbs1 j"
    using Cons.prems by (intro Cons.IH [OF ok1]) simp_all
  also have "\<dots> = cell bl dbs j"
    by (rule cell_upd_other [OF Cons.prems(1,2) r(3) r(1,2) r(4) blk(1)])
  finally show ?case unfolding w .
qed

lemma write_bytes_ok:
  "blocks_ok bl dbs \<Longrightarrow> 0 \<le> idx \<Longrightarrow> idx + int (length d) \<le> int (length bl) * int BLOCK_SIZE
     \<Longrightarrow> fst (write_bytes bl dbs idx d) = Inr ()
         \<and> blocks_ok bl (snd (write_bytes bl dbs idx d))
         \<and> (\<forall>i < length d. cell bl (snd (write_bytes bl dbs idx d)) (idx + int i) = Some (d ! i))"
proof (induction d arbitrary: dbs idx)
  case Nil
  then show ?case by simp
next
  case (Cons x d)
  from Cons.prems have r: "0 \<le> idx" "idx < int (length bl) * int BLOCK_SIZE" by simp_all
  from write_bytes_step [OF Cons.prems(1) r(1,2), of x d] obtain blk where
    blk: "dbs (bl ! nat (idx div int BLOCK_SIZE)) = Some blk" "length (data blk) = BLOCK_SIZE"
    and w: "write_bytes bl dbs idx (x # d)
           = write_bytes bl
               (dbs(bl ! nat (idx div int BLOCK_SIZE) \<mapsto>
                  blk\<lparr>data := (data blk)[nat (idx mod int BLOCK_SIZE) := x]\<rparr>))
               (idx + 1) d" by blast
  let ?dbs1 = "dbs(bl ! nat (idx div int BLOCK_SIZE) \<mapsto>
                  blk\<lparr>data := (data blk)[nat (idx mod int BLOCK_SIZE) := x]\<rparr>)"
  let ?dbs' = "snd (write_bytes bl ?dbs1 (idx + 1) d)"
  have ok1: "blocks_ok bl ?dbs1" by (rule blocks_ok_upd [OF Cons.prems(1) blk(1)]) simp
  have "0 \<le> idx + 1" "idx + 1 + int (length d) \<le> int (length bl) * int BLOCK_SIZE"
    using Cons.prems by simp_all
  note ih = Cons.IH [OF ok1 this]
  have first: "cell bl ?dbs' idx = Some x"
  proof -
    have "cell bl ?dbs' idx = cell bl ?dbs1 idx"
      using Cons.prems by (intro write_bytes_frame [OF ok1]) simp_all
    also have "\<dots> = Some x"
      using pos_in_range(5) [OF r] blk(2) by (intro cell_upd_same) simp
    finally show ?thesis .
  qed
  have cells: "cell bl ?dbs' (idx + int i) = Some ((x # d) ! i)" if "i < length (x # d)" for i
  proof (cases i)
    case 0
    with first show ?thesis by simp
  next
    case (Suc k)
    with that have "k < length d" by simp
    with ih have "cell bl ?dbs' (idx + 1 + int k) = Some (d ! k)" by blast
    with Suc show ?thesis by (simp add: add.assoc)
  qed
  from ih cells show ?case unfolding w by blast
qed

lemma read_bytes_cells:
  "blocks_ok bl dbs \<Longrightarrow> 0 \<le> idx \<Longrightarrow> idx + int (length d) \<le> int (length bl) * int BLOCK_SIZE
     \<Longrightarrow> (\<forall>i < length d. cell bl dbs (idx + int i) = Some (d ! i))
     \<Longrightarrow> read_bytes bl dbs idx (length d) = Inr d"
proof (induction d arbitrary: idx)
  case Nil
  show ?case by simp
next
  case (Cons x d)
  from Cons.prems have r: "0 \<le> idx" "idx < int (length bl) * int BLOCK_SIZE" by simp_all
  note p = pos_in_range [OF r]
  let ?b = "bl ! nat (idx div int BLOCK_SIZE)"
  from p(1) have "?b \<in> set bl" by simp
  with Cons.prems(1) obtain blk where blk: "dbs ?b = Some blk" "length (data blk) = BLOCK_SIZE"
    unfolding blocks_ok_def by blast
  from Cons.prems(4) have "cell bl dbs (idx + int 0) = Some ((x # d) ! 0)" by blast
  with blk have x: "data blk ! nat (idx mod int BLOCK_SIZE) = x" by (simp add: cell_def)
  have g: "list_getitem bl (idx div int BLOCK_SIZE) = Inr ?b"
    using p(2,3) by (simp add: list_getitem_def)
  have g2: "list_getitem (data blk) (idx mod int BLOCK_SIZE) = Inr x"
    using p(4,5) blk(2) x by (simp add: list_getitem_def)
  have rest: "\<forall>i < length d. cell bl dbs (idx + 1 + int i) = Some (d ! i)"
  proof (intro allI impI)
    fix i assume "i < length d"
    then have "Suc i < length (x # d)" by simp
    with Cons.prems(4) have "cell bl dbs (idx + int (Suc i)) = Some ((x # d) ! Suc i)" by blast
    moreover have "idx + int (Suc i) = idx + 1 + int i" by simp
    ultimately show "cell bl dbs (idx + 1 + int i) = Some (d ! i)" by (simp del: of_nat_Suc)
  qed
  have "read_bytes bl dbs (idx + 1) (length d) = Inr d"
    using Cons.prems by (intro Cons.IH [OF _ _ _ rest]) simp_all
  with g g2 blk(1) show ?case by simp
qed

lemma write_read_bytes:
  assumes "blocks_ok bl dbs" and "0 \<le> idx"
    and "idx + int (length d) \<le> int (length bl) * int BLOCK_SIZE"
  shows "fst (write_bytes bl dbs idx d) = Inr ()"
    and "read_bytes bl (snd (write_bytes bl dbs idx d)) idx (length d) = Inr d"
proof -
  note w = write_bytes_ok [OF assms]
  from w show "fst (write_bytes bl dbs idx d) = Inr ()" by blast
  from w have "blocks_ok bl (snd (write_bytes bl dbs idx d))"
    "\<forall>i < length d. cell bl (snd (write_bytes bl dbs idx d)) (idx + int i) = Some (d ! i)"
    by blast+
  from read_bytes_cells [OF this(1) assms(2,3) this(2)]
  show "read_bytes bl (snd (write_bytes bl dbs idx d)) idx (length d) = Inr d" .
qed

lemma alloc_blocks_ok:
  assumes inv: "tree_inv fs" and binv: "block_inv fs" and cinv: "cap_inv fs"
    and t: "traverse fs path = Some a" and o: "objs fs a = Some (File iid sz bl)"
    and al: "alloc_loop e (block_mgr fs) bl (data_blocks fs) = (ok, bm', bl', dbs')"
  shows "blocks_ok bl' dbs'"
proof -
  from alloc_loop_result [OF al] obtain new where n: "bl' = bl @ new"
    "free_blocks (block_mgr fs) = free_blocks bm' @ rev new"
    "\<And>b. dbs' b = (if b \<in> set new then Some (DataBlock_init b) else data_blocks fs b)"
    by blast
  have reg: "a \<in> dom (inodes fs)" by (rule traverse_registered [OF inv t])
  have ba: "blocks_of fs a = Some bl" using o by (simp add: blocks_of_def)
  show ?thesis
    unfolding blocks_ok_def
  proof (intro conjI ballI)
    from block_invD(1) [OF binv] n(2) have "distinct new"
      "set new \<subseteq> set (free_blocks (block_mgr fs))" by auto
    with block_invD(2) [OF binv reg ba] n(1) show "distinct bl'" by auto
  next
    fix b assume b: "b \<in> set bl'"
    show "\<exists>blk. dbs' b = Some blk \<and> length (data blk) = BLOCK_SIZE"
    proof (cases "b \<in> set new")
      case True
      with n(3) [of b] show ?thesis by (simp add: DataBlock_init_def)
    next
      case False
      with b n(1) have "b \<in> set bl" by simp
      with cap_invD(2) [OF cinv o] obtain blk where blk: "data_blocks fs b = Some blk" by auto
      from cap_invD(3) [OF cinv blk] blk False n(3) [of b] show ?thesis by simp
    qed
  qed
qed

lemma write_file_answer:
  assumes inv: "tree_inv fs" and binv: "block_inv fs" and cinv: "cap_inv fs"
    and off: "0 \<le> off"
    and t: "traverse fs path = Some a" and o: "objs fs a = Some (File iid sz bl)"
  shows "fst (write_file fs path d off)
     = Inr (off + int (length d)
              \<le> int (length bl + length (free_blocks (block_mgr fs))) * int BLOCK_SIZE)"
proof -
  let ?end = "off + int (length d)"
  obtain ok bm' bl' dbs' where al:
    "alloc_loop ?end (block_mgr fs) bl (data_blocks fs) = (ok, bm', bl', dbs')"
    by (cases "alloc_loop ?end (block_mgr fs) bl (data_blocks fs)") auto
  note w = write_file_File [OF t o al]
  note iff = alloc_loop_ok_iff [OF al]
  show ?thesis
  proof (cases ok)
    case False
    with w iff show ?thesis by simp
  next
    case True
    from alloc_loop_result [OF al] True
    have "?end \<le> int (length bl') * int BLOCK_SIZE" by blast
    from write_read_bytes(1) [OF alloc_blocks_ok [OF inv binv cinv t o al] off this]
    have "fst (write_bytes bl' dbs' off d) = Inr ()" .
    with w True iff show ?thesis by simp
  qed
qed

lemma write_read_file:
  assumes inv: "tree_inv fs" and binv: "block_inv fs" and cinv: "cap_inv fs"
    and off: "0 \<le> off" and ok: "fst (write_file fs path d off) = Inr True"
  shows "fst (read (snd (write_file fs path d off)) path (int (length d)) off) = Inr (Some d)"
proof -
  have "\<exists>a iid sz bl. traverse fs path = Some a \<and> objs fs a = Some (File iid sz bl)"
  proof (rule ccontr)
    assume "\<not> ?thesis"
    then have "write_file fs path d off = (Inr False, fs)"
      by (auto simp: write_file_def split: option.splits INode.splits)
    with ok show False by simp
  qed
  then obtain a iid sz bl where t: "traverse fs path = Some a"
    and o: "objs fs a = Some (File iid sz bl)" by blast
  let ?end = "off + int (length d)"
  obtain okf bm' bl' dbs' where al:
    "alloc_loop ?end (block_mgr fs) bl (data_blocks fs) = (okf, bm', bl', dbs')"
    by (cases "alloc_loop ?end (block_mgr fs) bl (data_blocks fs)") auto
  note w = write_file_File [OF t o al]
  from ok w have okf: okf by (auto split: if_splits)
  from alloc_loop_result [OF al] okf
  have e: "?end \<le> int (length bl') * int BLOCK_SIZE" by blast
  note wr = write_read_bytes [OF alloc_blocks_ok [OF inv binv cinv t o al] off e]
  let ?dbs'' = "snd (write_bytes bl' dbs' off d)"
  let ?fs' = "snd (write_file fs path d off)"
  from w okf wr(1) have fs': "objs ?fs' = (objs fs)(a \<mapsto> File iid (max sz ?end) bl')"
    "data_blocks ?fs' = ?dbs''" "root ?fs' = root fs" by simp_all
  have "traverse ?fs' path = traverse fs path"
    by (rule traverse_cong [OF dir_entries_File_upd [OF o fs'(1)] fs'(3)])
  with t have t': "traverse ?fs' path = Some a" by simp
  from fs'(1) have o': "objs ?fs' a = Some (File iid (max sz ?end) bl')" by simp
  show ?thesis
  proof (cases "max sz ?end \<le> off")
    case True
    then have "d = []" by simp
    with t' o' True show ?thesis by (simp add: read_def)
  next
    case False
    have "nat (min (int (length d)) (max sz ?end - off)) = length d" by simp
    with t' o' False fs'(2) wr(2) show ?thesis by (simp add: read_def)
  qed
qed

text \<open>
  Claim C1 (write/read round trip). After any run of operations on the constructed file
  system, for every payload \<open>d\<close> and every offset \<open>off\<close> that is not negative: when
  \<open>write(path, d, off)\<close> returns True, \<open>read(path, len(d), off)\<close> on the state it leaves
  returns exactly \<open>d\<close>; in particular for a file that \<open>create_file(path)\<close> has just
  created. The write does return True when the path resolves to a file whose blocks,
  together with the free blocks, cover \<open>off + len(d)\<close>, and returns False otherwise.
\<close>

theorem write_read_roundtrip:
  assumes "fs = run (FileSystem_init n) cs" and "0 \<le> off"
  shows "(fst (write_file fs path d off) = Inr True \<longrightarrow>
            fst (read (snd (write_file fs path d off)) path (int (length d)) off) = Inr (Some d))
     \<and> (fst (create_file fs path) = Inr True
          \<and> fst (write_file (snd (create_file fs path)) path d off) = Inr True \<longrightarrow>
            fst (read (snd (write_file (snd (create_file fs path)) path d off)) path
                   (int (length d)) off) = Inr (Some d))
     \<and> (traverse fs path = Some a \<and> objs fs a = Some (File iid sz bl) \<longrightarrow>
            fst (write_file fs path d off)
              = Inr (off + int (length d)
                       \<le> int (length bl + length (free_blocks (block_mgr fs))) * int BLOCK_SIZE))"
proof -
  have i: "tree_inv fs" "block_inv fs" "cap_inv fs"
    unfolding assms(1)
    using invs_run [OF tree_inv_init block_inv_init] cap_inv_run [OF cap_inv_init] by blast+
  have e: "exec fs (CreateFile path) = snd (create_file fs path)" by simp
  have i1: "tree_inv (snd (create_file fs path))" "block_inv (snd (create_file fs path))"
    "cap_inv (snd (create_file fs path))"
    using tree_inv_exec [OF i(1), of "CreateFile path"]
      block_inv_exec [OF i(1,2), of "CreateFile path"] cap_inv_create_file [OF i(3)]
    unfolding e by blast+
  from write_read_file [OF i assms(2)] write_read_file [OF i1 assms(2)]
    write_file_answer [OF i assms(2), of path a iid sz bl d]
  show ?thesis by blast
qed

lemma fs_rt_eval:
  "fst (create_file (run (FileSystem_init 2) []) ''/f'') = Inr True"
  "traverse (snd (create_file (run (FileSystem_init 2) []) ''/f'')) ''/f'' = Some 2"
  "objs (snd (create_file (run (FileSystem_init 2) []) ''/f'')) 2 = Some (File 2 0 [])"
  "free_blocks (block_mgr (snd (create_file (run (FileSystem_init 2) []) ''/f''))) = [0, 1]"
  "snd (create_file (run (FileSystem_init 2) []) ''/f'')
     = run (FileSystem_init 2) [CreateFile ''/f'']"
  by (simp_all add: fs_eval upt_rec)

theorem write_read_roundtrip_witness:
  "fst (write_file (snd (create_file (run (FileSystem_init 2) []) ''/f'')) ''/f'' [1, 2, 3] 5)
     = Inr True
   \<and> fst (read (snd (write_file (snd (create_file (run (FileSystem_init 2) []) ''/f''))
                ''/f'' [1, 2, 3] 5)) ''/f'' 3 5) = Inr (Some [1, 2, 3])"
proof -
  let ?fs1 = "snd (create_file (run (FileSystem_init 2) []) ''/f'')"
  have r: "?fs1 = run (FileSystem_init 2) [CreateFile ''/f'']" by (rule fs_rt_eval(5))
  have o: "(0::int) \<le> 5" by simp
  from write_read_roundtrip [OF r o, of "''/f''" "[1, 2, 3]" 2 2 0 "[]"]
    fs_rt_eval(2,3,4)
  have w: "fst (write_file ?fs1 ''/f'' [1, 2, 3] 5) = Inr True"
    by (simp add: BLOCK_SIZE_def)
  from write_read_roundtrip [OF refl o, of 2 "[]" "''/f''" "[1, 2, 3]"] fs_rt_eval(1) w
  have "fst (read (snd (write_file ?fs1 ''/f'' [1, 2, 3] 5)) ''/f'' 3 5) = Inr (Some [1, 2, 3])"
    by simp
  with w show ?thesis by blast
qed

end
